theory Spec2Isabelle
  imports Main "HOL-Library.Word" "HOL-Library.Product_Lexorder"
begin

section \<open>Identifiers and the configuration\<close>

text \<open>
  Modelled from the spec: the declarations of \<open>hyperdex::regionid\<close>, \<open>entityid\<close>,
  \<open>subspaceid\<close> and \<open>instance\<close> (hyperdex/ids.h) are not among the sources. A region
  identifier has the coordinates space, subspace, prefix and mask; an entity identifier is a
  region plus a replica index of type \<open>uint8_t\<close>; both are ordered lexicographically
  ("ordered by region then replica index"). An instance is an opaque value with equality (the
  type variable \<open>'i\<close>), a hashing strategy an opaque value \<open>'h\<close>.
\<close>

datatype regionid =
  regionid (space: "32 word") (subspace: "16 word") (prefix: "8 word") (rmask: "64 word")

datatype entityid = entityid (get_region: regionid) (number: "8 word")

type_synonym subspaceid = "32 word \<times> 16 word"

definition region_key :: "regionid \<Rightarrow> 32 word \<times> 16 word \<times> 8 word \<times> 64 word" where
  "region_key r = (space r, subspace r, prefix r, rmask r)"

instantiation regionid :: linorder
begin

definition less_eq_regionid :: "regionid \<Rightarrow> regionid \<Rightarrow> bool" where
  "less_eq_regionid a b \<longleftrightarrow> region_key a \<le> region_key b"

definition less_regionid :: "regionid \<Rightarrow> regionid \<Rightarrow> bool" where
  "less_regionid a b \<longleftrightarrow> region_key a < region_key b"

instance
proof
  fix x y z :: regionid
  show "(x < y) = (x \<le> y \<and> \<not> y \<le> x)"
    unfolding less_eq_regionid_def less_regionid_def by (rule less_le_not_le)
  show "x \<le> x"
    unfolding less_eq_regionid_def by (rule order_refl)
  show "x \<le> y \<Longrightarrow> y \<le> z \<Longrightarrow> x \<le> z"
    unfolding less_eq_regionid_def by (rule order_trans)
  show "x \<le> y \<Longrightarrow> y \<le> x \<Longrightarrow> x = y"
  proof -
    assume "x \<le> y" "y \<le> x"
    then have "region_key x = region_key y"
      unfolding less_eq_regionid_def by (rule antisym)
    then show "x = y"
      by (simp add: region_key_def regionid.expand)
  qed
  show "x \<le> y \<or> y \<le> x"
    unfolding less_eq_regionid_def by (rule linear)
qed

end

instantiation entityid :: linorder
begin

definition less_eq_entityid :: "entityid \<Rightarrow> entityid \<Rightarrow> bool" where
  "less_eq_entityid a b \<longleftrightarrow> (get_region a, number a) \<le> (get_region b, number b)"

definition less_entityid :: "entityid \<Rightarrow> entityid \<Rightarrow> bool" where
  "less_entityid a b \<longleftrightarrow> (get_region a, number a) < (get_region b, number b)"

instance
proof
  fix x y z :: entityid
  show "(x < y) = (x \<le> y \<and> \<not> y \<le> x)"
    unfolding less_eq_entityid_def less_entityid_def by (rule less_le_not_le)
  show "x \<le> x"
    unfolding less_eq_entityid_def by (rule order_refl)
  show "x \<le> y \<Longrightarrow> y \<le> z \<Longrightarrow> x \<le> z"
    unfolding less_eq_entityid_def by (rule order_trans)
  show "x \<le> y \<Longrightarrow> y \<le> x \<Longrightarrow> x = y"
  proof -
    assume "x \<le> y" "y \<le> x"
    then have "(get_region x, number x) = (get_region y, number y)"
      unfolding less_eq_entityid_def by (rule antisym)
    then show "x = y"
      by (simp add: entityid.expand)
  qed
  show "x \<le> y \<or> y \<le> x"
    unfolding less_eq_entityid_def by (rule linear)
qed

end

definition entity_get_subspace :: "entityid \<Rightarrow> subspaceid" where
  "entity_get_subspace e = (space (get_region e), subspace (get_region e))"

definition region_get_subspace :: "regionid \<Rightarrow> subspaceid" where
  "region_get_subspace r = (space r, subspace r)"

definition UINT8_MAX :: "8 word" where
  "UINT8_MAX = 255"

text \<open>\<open>std::numeric_limits<uint32_t>::max() - 1\<close>, the space of bookkeeping entities.\<close>

definition sentinel_space :: "32 word" where
  "sentinel_space = 4294967295 - 1"

text \<open>
  The configuration object as \<open>prepare\<close> and \<open>cleanup\<close> read it. Each \<open>std::map\<close> is the
  list of its entries in key order; \<open>size_t\<close> column counts are naturals.
\<close>

record ('i, 'h) configuration =
  regions :: "(regionid \<times> nat) list"
  entity_mapping :: "(entityid \<times> 'i) list"
  transfers_to :: "'i \<Rightarrow> (16 word \<times> regionid) list"
  disk_hasher :: "subspaceid \<Rightarrow> 'h"

section \<open>The disks, seen from outside\<close>

text \<open>
  Modelled from the spec: \<open>hyperdisk::disk\<close> and \<open>hyperdisk::returncode\<close> are not among the
  sources. A disk is a heap object named by its address; what it answers to a call is given
  by an environment that sees the whole history of effects so far. Every call is recorded,
  with its answer, in that history.
\<close>

datatype returncode = SUCCESS | DIDNOTHING | DATAFULL | SEARCHFULL | MISSINGDISK | FAILURE

type_synonym buffer = "8 word list"

datatype disk_call =
    GET buffer
  | PUT buffer "buffer list" "64 word"
  | DEL buffer
  | FLUSH nat
  | PREALLOCATE
  | DO_OPTIMISTIC_IO
  | DO_MANDATORY_IO
  | DROP

datatype severity = INFO | WARNING | ERROR

datatype logmsg =
    LogicErrorInConfiguration
  | FlushThreadStarted
  | Creating regionid nat
  | Dropping regionid
  | PreallocationFailed
  | OptimisticIOFailed
  | DiskIOReturned returncode
  | DiskFlushReturned returncode

datatype 'h event =
    Create nat "string \<times> regionid" 'h nat
  | Call nat disk_call returncode
  | Log severity logmsg
  | Sleep nat nat

record 'h hyperdisk =
  disk_ret :: "'h event list \<Rightarrow> nat \<Rightarrow> disk_call \<Rightarrow> returncode"
  disk_get_out :: "'h event list \<Rightarrow> nat \<Rightarrow> buffer \<Rightarrow> buffer list \<times> 64 word"

section \<open>\<open>std::map\<close> as a list of entries in key order\<close>

definition map_find :: "'k \<Rightarrow> ('k \<times> 'v) list \<Rightarrow> 'v option" where
  "map_find k m = map_of m k"

text \<open>\<open>std::map::insert\<close>: an entry whose key is already present is left as it is.\<close>

definition map_insert :: "'k::linorder \<Rightarrow> 'v \<Rightarrow> ('k \<times> 'v) list \<Rightarrow> ('k \<times> 'v) list" where
  "map_insert k v m = (case map_of m k of Some _ \<Rightarrow> m | None \<Rightarrow> insort_key fst (k, v) m)"

definition map_erase :: "'k \<Rightarrow> ('k \<times> 'v) list \<Rightarrow> ('k \<times> 'v) list" where
  "map_erase k m = filter (\<lambda>e. fst e \<noteq> k) m"

text \<open>The entries from \<open>lower_bound lo\<close> up to \<open>upper_bound hi\<close>.\<close>

definition map_range :: "'k::linorder \<Rightarrow> 'k \<Rightarrow> ('k \<times> 'v) list \<Rightarrow> ('k \<times> 'v) list" where
  "map_range lo hi m = takeWhile (\<lambda>e. fst e \<le> hi) (dropWhile (\<lambda>e. fst e < lo) m)"

section \<open>The data layer\<close>

text \<open>
  The fields of \<open>hyperdaemon::datalayer\<close> that the modelled functions use, together with the
  history of effects (\<open>trace\<close>) and the next free disk address (\<open>next_disk\<close>).
\<close>

record 'h datalayer =
  m_shutdown :: bool
  m_base :: string
  m_disks :: "(regionid \<times> nat) list"
  m_preallocate_rr :: "regionid list"
  m_last_preallocation :: "64 word"
  m_optimistic_rr :: "regionid list"
  m_last_dose_of_optimism :: "64 word"
  trace :: "'h event list"
  next_disk :: nat

definition emit :: "'h event list \<Rightarrow> 'h datalayer \<Rightarrow> 'h datalayer" where
  "emit es st = st\<lparr>trace := trace st @ es\<rparr>"

text \<open>
  \<open>create_disk\<close> takes the column count as \<open>uint16_t\<close>: the callers' \<open>size_t\<close> is narrowed
  on the way in.
\<close>

definition create_disk :: "regionid \<Rightarrow> 'h \<Rightarrow> nat \<Rightarrow> 'h datalayer \<Rightarrow> 'h datalayer" where
  "create_disk ri hasher columns st =
     (let num_columns = columns mod 65536;
          path = (m_base st, ri);
          d = next_disk st;
          st1 = emit [Log INFO (Creating ri num_columns), Create d path hasher num_columns] st
      in st1\<lparr>m_disks := map_insert ri d (m_disks st1), next_disk := Suc d\<rparr>)"

definition drop_disk :: "'h hyperdisk \<Rightarrow> regionid \<Rightarrow> 'h datalayer \<Rightarrow> 'h datalayer" where
  "drop_disk D ri st =
     (case map_find ri (m_disks st) of
        None \<Rightarrow> st
      | Some d \<Rightarrow>
          (let st1 = emit [Log INFO (Dropping ri)] st;
               st2 = emit [Call d DROP (disk_ret D (trace st1) d DROP)] st1
           in st2\<lparr>m_disks := map_erase ri (m_disks st2)\<rparr>))"

subsection \<open>prepare\<close>

text \<open>One step of each of the two loops of \<open>prepare\<close>; \<open>disks\<close> is the copy taken at entry.\<close>

definition prepare_entity ::
  "('i, 'h) configuration \<Rightarrow> 'i \<Rightarrow> (regionid \<times> nat) list \<Rightarrow> entityid \<times> 'i \<Rightarrow>
   'h datalayer \<Rightarrow> 'h datalayer" where
  "prepare_entity newconfig us disks e st =
     (if space (get_region (fst e)) \<noteq> sentinel_space \<and> snd e = us
         \<and> map_find (get_region (fst e)) disks = None
      then (case map_find (get_region (fst e)) (regions newconfig) of
              Some region_size \<Rightarrow>
                create_disk (get_region (fst e))
                  (disk_hasher newconfig (entity_get_subspace (fst e))) region_size st
            | None \<Rightarrow> emit [Log ERROR LogicErrorInConfiguration] st)
      else st)"

definition prepare_transfer ::
  "('i, 'h) configuration \<Rightarrow> (regionid \<times> nat) list \<Rightarrow> 16 word \<times> regionid \<Rightarrow>
   'h datalayer \<Rightarrow> 'h datalayer" where
  "prepare_transfer newconfig disks t st =
     (if map_find (snd t) disks = None
      then (case map_find (snd t) (regions newconfig) of
              Some region_size \<Rightarrow>
                create_disk (snd t)
                  (disk_hasher newconfig (region_get_subspace (snd t))) region_size st
            | None \<Rightarrow> emit [Log ERROR LogicErrorInConfiguration] st)
      else st)"

definition prepare :: "('i, 'h) configuration \<Rightarrow> 'i \<Rightarrow> 'h datalayer \<Rightarrow> 'h datalayer" where
  "prepare newconfig us st =
     (let disks = m_disks st;
          st1 = fold (prepare_entity newconfig us disks) (entity_mapping newconfig) st;
          transfers = transfers_to newconfig us
      in fold (prepare_transfer newconfig disks) transfers st1)"

definition reconfigure :: "('i, 'h) configuration \<Rightarrow> 'i \<Rightarrow> 'h datalayer \<Rightarrow> 'h datalayer" where
  "reconfigure newconfig us st = st"

subsection \<open>cleanup\<close>

definition keep_disk ::
  "('i, 'h) configuration \<Rightarrow> 'i \<Rightarrow> (16 word \<times> regionid) list \<Rightarrow> regionid \<Rightarrow> bool" where
  "keep_disk newconfig us transfers ri =
     (let keep = False;
          keep = fold (\<lambda>e keep. if snd e = us then True else keep)
                   (map_range (entityid ri 0) (entityid ri UINT8_MAX) (entity_mapping newconfig))
                   keep;
          keep = fold (\<lambda>t keep. if snd t = ri then True else keep) transfers keep
      in keep)"

definition cleanup_disk ::
  "'h hyperdisk \<Rightarrow> ('i, 'h) configuration \<Rightarrow> 'i \<Rightarrow> (16 word \<times> regionid) list \<Rightarrow>
   regionid \<times> nat \<Rightarrow> 'h datalayer \<Rightarrow> 'h datalayer" where
  "cleanup_disk D newconfig us transfers d st =
     (if \<not> keep_disk newconfig us transfers (fst d) then drop_disk D (fst d) st else st)"

definition cleanup ::
  "'h hyperdisk \<Rightarrow> ('i, 'h) configuration \<Rightarrow> 'i \<Rightarrow> 'h datalayer \<Rightarrow> 'h datalayer" where
  "cleanup D newconfig us st =
     (let transfers = transfers_to newconfig us;
          disks = m_disks st
      in fold (cleanup_disk D newconfig us transfers) disks st)"

definition shutdown :: "'h datalayer \<Rightarrow> 'h datalayer" where
  "shutdown st = st\<lparr>m_shutdown := True\<rparr>"

subsection \<open>Requests on one region\<close>

definition get_region_disk :: "regionid \<Rightarrow> 'h datalayer \<Rightarrow> nat option" where
  "get_region_disk ri st = map_find ri (m_disks st)"

text \<open>
  \<open>get\<close> writes the value and the version through its out-parameters; the model returns them
  next to the return code, unchanged when there is no disk.
\<close>

definition get ::
  "'h hyperdisk \<Rightarrow> regionid \<Rightarrow> buffer \<Rightarrow> buffer list \<Rightarrow> 64 word \<Rightarrow> 'h datalayer \<Rightarrow>
   (returncode \<times> buffer list \<times> 64 word) \<times> 'h datalayer" where
  "get D ri key val version st =
     (case get_region_disk ri st of
        None \<Rightarrow> ((MISSINGDISK, val, version), st)
      | Some r \<Rightarrow>
          (let ret = disk_ret D (trace st) r (GET key);
               out = disk_get_out D (trace st) r key
           in ((ret, out), emit [Call r (GET key) ret] st)))"

definition put ::
  "'h hyperdisk \<Rightarrow> regionid \<Rightarrow> buffer \<Rightarrow> buffer list \<Rightarrow> 64 word \<Rightarrow> 'h datalayer \<Rightarrow>
   returncode \<times> 'h datalayer" where
  "put D ri key val version st =
     (case get_region_disk ri st of
        None \<Rightarrow> (MISSINGDISK, st)
      | Some r \<Rightarrow>
          (let ret = disk_ret D (trace st) r (PUT key val version)
           in (ret, emit [Call r (PUT key val version) ret] st)))"

definition del ::
  "'h hyperdisk \<Rightarrow> regionid \<Rightarrow> buffer \<Rightarrow> 'h datalayer \<Rightarrow> returncode \<times> 'h datalayer" where
  "del D ri key st =
     (case get_region_disk ri st of
        None \<Rightarrow> (MISSINGDISK, st)
      | Some r \<Rightarrow>
          (let ret = disk_ret D (trace st) r (DEL key)
           in (ret, emit [Call r (DEL key) ret] st)))"

definition trickle :: "'h hyperdisk \<Rightarrow> regionid \<Rightarrow> 'h datalayer \<Rightarrow> 'h datalayer" where
  "trickle D ri st =
     (case get_region_disk ri st of
        None \<Rightarrow> st
      | Some r \<Rightarrow> emit [Call r (FLUSH 1000) (disk_ret D (trace st) r (FLUSH 1000))] st)"

section \<open>The maintenance thread\<close>

text \<open>
  The round-robin queues support \<open>push_back\<close>, \<open>front\<close>, \<open>pop_front\<close>, \<open>size\<close> and a linear
  search; they are lists. A region of the copied map that is in neither queue is appended.
\<close>

definition observe_region :: "regionid \<times> nat \<Rightarrow> 'h datalayer \<Rightarrow> 'h datalayer" where
  "observe_region i st =
     (let st1 = (if fst i \<notin> set (m_preallocate_rr st)
                 then st\<lparr>m_preallocate_rr := m_preallocate_rr st @ [fst i]\<rparr> else st)
      in if fst i \<notin> set (m_optimistic_rr st1)
         then st1\<lparr>m_optimistic_rr := m_optimistic_rr st1 @ [fst i]\<rparr> else st1)"

text \<open>
  The walk over one queue, the same loop for preallocation (\<open>c = PREALLOCATE\<close>) and for
  optimistic I/O (\<open>c = DO_OPTIMISTIC_IO\<close>): \<open>i\<close> is the loop counter, \<open>q\<close> the queue, \<open>tr\<close> the
  history and \<open>sleep\<close> the flag of the iteration. The bound \<open>q.size()\<close> is read again on
  every round. \<open>break\<close> is the branch without a recursive call.
\<close>

function rr_walk ::
  "'h hyperdisk \<Rightarrow> (regionid \<times> nat) list \<Rightarrow> disk_call \<Rightarrow> logmsg \<Rightarrow> nat \<Rightarrow>
   regionid list \<Rightarrow> 'h event list \<Rightarrow> bool \<Rightarrow> regionid list \<times> 'h event list \<times> bool" where
  "rr_walk D disks c w i q tr sleep =
     (if i < length q then
        (case map_find (hd q) disks of
           None \<Rightarrow> rr_walk D disks c w (Suc i) (tl q) tr sleep
         | Some d \<Rightarrow>
             (let q' = tl (q @ [hd q]);
                  ret = disk_ret D tr d c;
                  tr' = tr @ [Call d c ret]
              in if ret = SUCCESS then (q', tr', False)
                 else if ret = DIDNOTHING then rr_walk D disks c w (Suc i) q' tr' sleep
                 else rr_walk D disks c w (Suc i) q' (tr' @ [Log WARNING w]) sleep))
      else (q, tr, sleep))"
  by pat_completeness auto
termination
  by (relation "measure (\<lambda>(D, disks, c, w, i, q, tr, sleep). length q - i)") auto

declare rr_walk.simps [simp del]

text \<open>The last loop of an iteration: every disk of the copied map is flushed.\<close>

definition flush_disk ::
  "'h hyperdisk \<Rightarrow> regionid \<times> nat \<Rightarrow> 'h event list \<times> bool \<Rightarrow> 'h event list \<times> bool" where
  "flush_disk D i s =
     (let tr = fst s; sleep = snd s;
          ret = disk_ret D tr (snd i) (FLUSH 10000);
          tr = tr @ [Call (snd i) (FLUSH 10000) ret]
      in if ret = SUCCESS then (tr, False)
         else if ret = DIDNOTHING then (tr, sleep)
         else if ret = DATAFULL \<or> ret = SEARCHFULL then
           (let ioret = disk_ret D tr (snd i) DO_MANDATORY_IO;
                tr = tr @ [Call (snd i) DO_MANDATORY_IO ioret]
            in if ioret \<noteq> SUCCESS \<and> ioret \<noteq> DIDNOTHING
               then (tr @ [Log ERROR (DiskIOReturned ioret)], sleep)
               else (tr, sleep))
         else (tr @ [Log ERROR (DiskFlushReturned ret)], sleep))"

text \<open>
  The four readings of \<open>e::time()\<close> in one iteration, in nanoseconds. The test
  \<open>(e::time() - last) / 500000000. > 1\<close> subtracts in \<open>uint64_t\<close> and compares the quotient
  with 1, which holds exactly when the difference exceeds 500000000.
\<close>

record clock =
  preallocate_check :: "64 word"
  preallocate_done :: "64 word"
  optimism_check :: "64 word"
  optimism_done :: "64 word"

definition time_elapsed :: "64 word \<Rightarrow> 64 word \<Rightarrow> bool" where
  "time_elapsed now before = (500000000 < unat (now - before))"

definition preallocate_pass ::
  "'h hyperdisk \<Rightarrow> (regionid \<times> nat) list \<Rightarrow> 64 word \<Rightarrow> 'h datalayer \<times> bool \<Rightarrow>
   'h datalayer \<times> bool" where
  "preallocate_pass D disks now s =
     (case rr_walk D disks PREALLOCATE PreallocationFailed 0
             (m_preallocate_rr (fst s)) (trace (fst s)) (snd s) of
        (q, tr, sleep) \<Rightarrow>
          ((fst s)\<lparr>m_preallocate_rr := q, trace := tr, m_last_preallocation := now\<rparr>, sleep))"

definition optimistic_pass ::
  "'h hyperdisk \<Rightarrow> (regionid \<times> nat) list \<Rightarrow> 64 word \<Rightarrow> 'h datalayer \<times> bool \<Rightarrow>
   'h datalayer \<times> bool" where
  "optimistic_pass D disks now s =
     (case rr_walk D disks DO_OPTIMISTIC_IO OptimisticIOFailed 0
             (m_optimistic_rr (fst s)) (trace (fst s)) (snd s) of
        (q, tr, sleep) \<Rightarrow>
          ((fst s)\<lparr>m_optimistic_rr := q, trace := tr, m_last_dose_of_optimism := now\<rparr>, sleep))"

text \<open>The body of the \<open>while (!m_shutdown)\<close> loop of \<open>flush_loop\<close>.\<close>

definition flush_loop_body :: "'h hyperdisk \<Rightarrow> clock \<Rightarrow> 'h datalayer \<Rightarrow> 'h datalayer" where
  "flush_loop_body D clk st =
     (let sleep = True;
          disks = m_disks st;
          st1 = fold observe_region disks st;
          s2 = (if time_elapsed (preallocate_check clk) (m_last_preallocation st1)
                then preallocate_pass D disks (preallocate_done clk) (st1, sleep)
                else (st1, sleep));
          s3 = (if time_elapsed (optimism_check clk) (m_last_dose_of_optimism (fst s2))
                then optimistic_pass D disks (optimism_done clk) s2
                else s2);
          s4 = fold (flush_disk D) disks (trace (fst s3), snd s3);
          st4 = (fst s3)\<lparr>trace := fst s4\<rparr>
      in if snd s4 then emit [Sleep 0 100] st4 else st4)"

text \<open>
  The \<open>while (!m_shutdown)\<close> loop runs until another thread sets \<open>m_shutdown\<close>: the model
  runs the iterations whose clock readings it is given and stops early when the flag is
  set. \<open>flush_loop\<close> logs that the thread has started and enters the loop; its counter
  \<open>count\<close> is incremented and never read, and is left out.
\<close>

fun flush_loop_while :: "'h hyperdisk \<Rightarrow> clock list \<Rightarrow> 'h datalayer \<Rightarrow> 'h datalayer" where
  "flush_loop_while D [] st = st"
| "flush_loop_while D (clk # clks) st =
     (if m_shutdown st then st else flush_loop_while D clks (flush_loop_body D clk st))"

definition flush_loop :: "'h hyperdisk \<Rightarrow> clock list \<Rightarrow> 'h datalayer \<Rightarrow> 'h datalayer" where
  "flush_loop D clks st = flush_loop_while D clks (emit [Log WARNING FlushThreadStarted] st)"

section \<open>The segment list of the append-only log\<close>

text \<open>
  Modelled from the spec: only the class declaration of
  \<open>hyperdex::append_only_log::segment_list\<close> is among the sources, the bodies of \<open>add\<close>,
  \<open>get_lower_bound\<close> and \<open>get_segment\<close> are missing. The fields are those of the declaration;
  a segment is named by its address. Lists live in a heap, a handle is an index into it, and
  \<open>add\<close> "returns a new list handle containing all prior entries plus the new entry". An
  index outside the list, or a handle that was never returned, is answered by \<open>None\<close>.
\<close>

record segment_list =
  m_ref :: nat
  m_sz :: nat
  m_segments :: "(64 word \<times> nat) list"

type_synonym segment_heap = "segment_list list"

definition add :: "segment_heap \<Rightarrow> nat \<Rightarrow> 64 word \<Rightarrow> nat \<Rightarrow> (nat \<times> segment_heap) option" where
  "add heap this lower_bound ws =
     (if this < length heap
      then (let old = heap ! this;
                new = \<lparr>m_ref = 1, m_sz = m_sz old + 1,
                       m_segments = m_segments old @ [(lower_bound, ws)]\<rparr>
            in Some (length heap, heap @ [new]))
      else None)"

definition get_lower_bound :: "segment_heap \<Rightarrow> nat \<Rightarrow> nat \<Rightarrow> 64 word option" where
  "get_lower_bound heap this i =
     (if this < length heap \<and> i < m_sz (heap ! this) \<and> i < length (m_segments (heap ! this))
      then Some (fst (m_segments (heap ! this) ! i)) else None)"

definition get_segment :: "segment_heap \<Rightarrow> nat \<Rightarrow> nat \<Rightarrow> nat option" where
  "get_segment heap this i =
     (if this < length heap \<and> i < m_sz (heap ! this) \<and> i < length (m_segments (heap ! this))
      then Some (snd (m_segments (heap ! this) ! i)) else None)"

definition list_length :: "segment_heap \<Rightarrow> nat \<Rightarrow> nat option" where
  "list_length heap this = (if this < length heap then Some (m_sz (heap ! this)) else None)"

section \<open>Reading the history\<close>

text \<open>
  The \<open>create_disk\<close> calls recorded in a history, as (region, hashing strategy, columns) and
  as (region, address of the new disk), and the number of logged configuration errors.
\<close>

definition create_calls :: "'h event list \<Rightarrow> (regionid \<times> 'h \<times> nat) list" where
  "create_calls tr =
     concat (map (\<lambda>ev. case ev of Create d path h n \<Rightarrow> [(snd path, h, n)] | _ \<Rightarrow> []) tr)"

definition created_disks :: "'h event list \<Rightarrow> (regionid \<times> nat) list" where
  "created_disks tr =
     concat (map (\<lambda>ev. case ev of Create d path h n \<Rightarrow> [(snd path, d)] | _ \<Rightarrow> []) tr)"

definition logic_errors :: "'h event list \<Rightarrow> nat" where
  "logic_errors tr = length (filter (\<lambda>ev. ev = Log ERROR LogicErrorInConfiguration) tr)"

text \<open>The disks on which \<open>drop\<close> was called, in the order of the calls.\<close>

definition drop_calls :: "'h event list \<Rightarrow> nat list" where
  "drop_calls tr = concat (map (\<lambda>ev. case ev of Call d DROP rc \<Rightarrow> [d] | _ \<Rightarrow> []) tr)"

text \<open>
  Both loops of \<open>prepare\<close> run the same body on the region they have picked (\<open>serve\<close>); the
  regions picked, in the order of the two loops, are \<open>requested\<close>, and \<open>answer\<close> is the
  \<open>create_disk\<close> call a picked region leads to. \<open>grows st evs st'\<close>: from \<open>st\<close> to \<open>st'\<close>
  the history grew by \<open>evs\<close>, only the map and the next address changed, and a lookup in the
  new map finds the old entry or else the first disk created for the region.
\<close>

definition serve :: "('i, 'h) configuration \<Rightarrow> regionid \<Rightarrow> 'h datalayer \<Rightarrow> 'h datalayer" where
  "serve newconfig ri st =
     (case map_find ri (regions newconfig) of
        Some region_size \<Rightarrow>
          create_disk ri (disk_hasher newconfig (region_get_subspace ri)) region_size st
      | None \<Rightarrow> emit [Log ERROR LogicErrorInConfiguration] st)"

definition entity_request ::
  "'i \<Rightarrow> (regionid \<times> nat) list \<Rightarrow> entityid \<times> 'i \<Rightarrow> regionid list" where
  "entity_request us disks e =
     (if space (get_region (fst e)) \<noteq> sentinel_space \<and> snd e = us
         \<and> map_find (get_region (fst e)) disks = None
      then [get_region (fst e)] else [])"

definition transfer_request :: "(regionid \<times> nat) list \<Rightarrow> 16 word \<times> regionid \<Rightarrow> regionid list" where
  "transfer_request disks t = (if map_find (snd t) disks = None then [snd t] else [])"

definition requested ::
  "('i, 'h) configuration \<Rightarrow> 'i \<Rightarrow> (regionid \<times> nat) list \<Rightarrow> regionid list" where
  "requested newconfig us disks =
     concat (map (entity_request us disks) (entity_mapping newconfig))
     @ concat (map (transfer_request disks) (transfers_to newconfig us))"

definition answer :: "('i, 'h) configuration \<Rightarrow> regionid \<Rightarrow> (regionid \<times> 'h \<times> nat) list" where
  "answer newconfig ri =
     (case map_find ri (regions newconfig) of
        Some region_size \<Rightarrow>
          [(ri, disk_hasher newconfig (region_get_subspace ri), region_size mod 65536)]
      | None \<Rightarrow> [])"

definition grows :: "'h datalayer \<Rightarrow> 'h event list \<Rightarrow> 'h datalayer \<Rightarrow> bool" where
  "grows st evs st' \<longleftrightarrow>
     st' = st\<lparr>trace := trace st @ evs, m_disks := m_disks st', next_disk := next_disk st'\<rparr>
     \<and> map_of (m_disks st') = map_of (m_disks st @ created_disks evs)"

text \<open>
  The calls of one kind recorded in a history, each with the disk and its answer, and the
  return codes logged as failed mandatory I/O.
\<close>

definition calls :: "disk_call \<Rightarrow> 'h event list \<Rightarrow> (nat \<times> returncode) list" where
  "calls c tr =
     concat (map (\<lambda>ev. case ev of Call d c' rc \<Rightarrow> if c' = c then [(d, rc)] else [] | _ \<Rightarrow> []) tr)"

definition io_errors :: "'h event list \<Rightarrow> returncode list" where
  "io_errors tr =
     concat (map (\<lambda>ev. case ev of Log ERROR (DiskIOReturned rc) \<Rightarrow> [rc] | _ \<Rightarrow> []) tr)"

text \<open>
  \<open>hosted\<close>: the region is a key of the copied map. \<open>observed\<close>: a queue after the first loop
  of an iteration has appended the regions it lacks.
\<close>

definition hosted :: "(regionid \<times> nat) list \<Rightarrow> regionid \<Rightarrow> bool" where
  "hosted disks r \<longleftrightarrow> map_of disks r \<noteq> None"

definition observed :: "(regionid \<times> nat) list \<Rightarrow> regionid list \<Rightarrow> regionid list" where
  "observed ds q = fold (\<lambda>i q. if fst i \<notin> set q then q @ [fst i] else q) ds q"

text \<open>
  What a walk over a queue leaves behind. \<open>walked\<close>: the walk visited the prefix \<open>p\<close> of the
  queue, called the disk of every hosted region of \<open>p\<close> in turn and recorded nothing but these
  calls and warnings. \<open>passed\<close>: the queue \<open>q\<close> became \<open>q'\<close> by one gated pass, the rest of
  the queue first, then the hosted regions visited. \<open>flush_walked\<close>: every disk was flushed,
  mandatory I/O followed on the disks whose flush reported a full disk, and each failure of
  it was logged.
\<close>

definition walked ::
  "(regionid \<times> nat) list \<Rightarrow> disk_call \<Rightarrow> logmsg \<Rightarrow> regionid list \<Rightarrow> regionid list \<Rightarrow>
   'h event list \<Rightarrow> bool" where
  "walked disks c w p s evs \<longleftrightarrow>
     map fst (calls c evs) = map (\<lambda>r. the (map_of disks r)) (filter (hosted disks) p)
     \<and> set evs \<subseteq> {ev. (\<exists>d rc. ev = Call d c rc) \<or> ev = Log WARNING w}"

definition passed ::
  "(regionid \<times> nat) list \<Rightarrow> disk_call \<Rightarrow> logmsg \<Rightarrow> bool \<Rightarrow> regionid list \<Rightarrow> regionid list \<Rightarrow>
   'h event list \<Rightarrow> bool" where
  "passed disks c w gate q q' evs \<longleftrightarrow>
     (\<exists>p s. q = p @ s \<and> q' = s @ filter (hosted disks) p
        \<and> (if gate then q \<noteq> [] \<longrightarrow> p \<noteq> [] else p = [] \<and> evs = [])
        \<and> walked disks c w p s evs)"

definition flush_walked :: "(regionid \<times> nat) list \<Rightarrow> 'h event list \<Rightarrow> bool" where
  "flush_walked ds evs \<longleftrightarrow>
     map fst (calls (FLUSH 10000) evs) = map snd ds
     \<and> map fst (calls DO_MANDATORY_IO evs)
         = map fst (filter (\<lambda>x. snd x = DATAFULL \<or> snd x = SEARCHFULL) (calls (FLUSH 10000) evs))
     \<and> io_errors evs
         = filter (\<lambda>rc. rc \<noteq> SUCCESS \<and> rc \<noteq> DIDNOTHING) (map snd (calls DO_MANDATORY_IO evs))
     \<and> set evs \<subseteq> {ev. (\<exists>d rc. ev = Call d (FLUSH 10000) rc)
                       \<or> (\<exists>d rc. ev = Call d DO_MANDATORY_IO rc) \<or> (\<exists>m. ev = Log ERROR m)}"

text \<open>
  The number of iterations, among those with the given clock readings, that run the
  preallocation pass; \<open>before\<close> is the time of the last pass.
\<close>

fun window_count :: "64 word \<Rightarrow> clock list \<Rightarrow> nat" where
  "window_count before [] = 0"
| "window_count before (clk # clks) =
     (if time_elapsed (preallocate_check clk) before
      then Suc (window_count (preallocate_done clk) clks)
      else window_count before clks)"

text \<open>
  \<open>served\<close>: every hosted region of \<open>rs\<close> has its disk in \<open>A\<close>. \<open>fair_inv\<close>: of the queue
  \<open>q0\<close>, either every region is served, or a prefix of at least \<open>n\<close> regions is served and
  the queue is now the rest of \<open>q0\<close> followed by the hosted regions of that prefix.
\<close>

definition served :: "(regionid \<times> nat) list \<Rightarrow> regionid list \<Rightarrow> nat set \<Rightarrow> bool" where
  "served ds rs A \<longleftrightarrow> (\<forall>r\<in>set rs. \<forall>d. map_of ds r = Some d \<longrightarrow> d \<in> A)"

definition fair_inv ::
  "(regionid \<times> nat) list \<Rightarrow> regionid list \<Rightarrow> regionid list \<Rightarrow> nat set \<Rightarrow> nat \<Rightarrow> bool" where
  "fair_inv ds q0 q A n \<longleftrightarrow>
     served ds q0 A
     \<or> (\<exists>p s. q0 = p @ s \<and> q = s @ filter (hosted ds) p \<and> served ds p A \<and> n \<le> length p)"

section \<open>Concrete inputs\<close>

text \<open>Regions, a disk environment and a data layer on which the theorems below are run.\<close>

definition region_of :: "64 word \<Rightarrow> regionid" where
  "region_of m = regionid 1 0 0 m"

definition quiet_disk :: "nat hyperdisk" where
  "quiet_disk = \<lparr>disk_ret = (\<lambda>tr d c. DIDNOTHING), disk_get_out = (\<lambda>tr d key. ([], 0))\<rparr>"

definition hosting :: "(regionid \<times> nat) list \<Rightarrow> nat datalayer" where
  "hosting disks =
     \<lparr>m_shutdown = False, m_base = ''data'', m_disks = disks,
      m_preallocate_rr = [], m_last_preallocation = 0,
      m_optimistic_rr = [], m_last_dose_of_optimism = 0,
      trace = [], next_disk = length disks\<rparr>"

definition wide_config :: "(nat, nat) configuration" where
  "wide_config =
     \<lparr>regions = [(region_of 1, 65536)],
      entity_mapping = [(entityid (region_of 1) 0, 7)],
      transfers_to = (\<lambda>i. []),
      disk_hasher = (\<lambda>s. 0)\<rparr>"

definition crowded_config :: "(nat, nat) configuration" where
  "crowded_config =
     \<lparr>regions = [(region_of 1, 3)],
      entity_mapping = [(entityid (region_of 1) 0, 7), (entityid (region_of 1) 1, 7),
                        (entityid (region_of 2) 0, 7), (entityid (region_of 3) 0, 8)],
      transfers_to = (\<lambda>i. if i = 7 then [(0, region_of 1)] else []),
      disk_hasher = (\<lambda>s. 0)\<rparr>"

definition moved_config :: "(nat, nat) configuration" where
  "moved_config =
     \<lparr>regions = [(region_of 1, 3), (region_of 2, 3), (region_of 3, 3)],
      entity_mapping = [(entityid (region_of 1) 0, 7), (entityid (region_of 3) 0, 8)],
      transfers_to = (\<lambda>i. if i = 7 then [(0, region_of 2)] else []),
      disk_hasher = (\<lambda>s. 0)\<rparr>"

definition four_disks :: "(regionid \<times> nat) list" where
  "four_disks = [(region_of 1, 0), (region_of 2, 1), (region_of 3, 2), (region_of 4, 3)]"

definition busy_disk :: "nat hyperdisk" where
  "busy_disk =
     \<lparr>disk_ret = (\<lambda>tr d c. case c of
          FLUSH t \<Rightarrow> (if d = 0 then DATAFULL else if d = 1 then SEARCHFULL else DIDNOTHING)
        | DO_MANDATORY_IO \<Rightarrow> (if d = 0 then FAILURE else SUCCESS)
        | _ \<Rightarrow> DIDNOTHING),
      disk_get_out = (\<lambda>tr d key. ([], 0))\<rparr>"

definition eager_disk :: "nat hyperdisk" where
  "eager_disk =
     \<lparr>disk_ret = (\<lambda>tr d c. case c of PREALLOCATE \<Rightarrow> SUCCESS | _ \<Rightarrow> DIDNOTHING),
      disk_get_out = (\<lambda>tr d key. ([], 0))\<rparr>"

definition three_disks :: "(regionid \<times> nat) list" where
  "three_disks = [(region_of 1, 0), (region_of 2, 1), (region_of 3, 2)]"

definition two_disks :: "(regionid \<times> nat) list" where
  "two_disks = [(region_of 1, 0), (region_of 2, 1)]"

definition tick :: "64 word \<Rightarrow> clock" where
  "tick t = \<lparr>preallocate_check = t, preallocate_done = t, optimism_check = t, optimism_done = t\<rparr>"

definition shrunk_config :: "(nat, nat) configuration" where
  "shrunk_config =
     \<lparr>regions = [(region_of 1, 3), (region_of 2, 3)],
      entity_mapping = [(entityid (region_of 2) 0, 7)],
      transfers_to = (\<lambda>i. []),
      disk_hasher = (\<lambda>s. 0)\<rparr>"

definition after_drop :: "nat datalayer" where
  "after_drop =
     cleanup quiet_disk shrunk_config 7
       (flush_loop_body quiet_disk (tick 600000000) (hosting two_disks))"

section \<open>Requests on hosted and unhosted regions\<close>

text \<open>
  C5. For a region that is not a key of the region-to-disk map, \<open>get\<close>, \<open>put\<close> and \<open>del\<close>
  return \<open>MISSINGDISK\<close> and the whole state (the map, the queues, the history of disk calls) is
  the one before; \<open>get\<close> leaves its out-parameters as they were. For a region the map sends to
  a disk \<open>r\<close>, each of the three makes exactly one call, on \<open>r\<close>, and returns what \<open>r\<close> answered,
  and the map is unchanged.
\<close>

theorem get_put_del_missingdisk:
  "(ri \<notin> fst ` set (m_disks st) \<longrightarrow>
      get D ri key val version st = ((MISSINGDISK, val, version), st)
    \<and> put D ri key val version st = (MISSINGDISK, st)
    \<and> del D ri key st = (MISSINGDISK, st))
   \<and> (\<forall>r. map_of (m_disks st) ri = Some r \<longrightarrow>
      get D ri key val version st
        = ((disk_ret D (trace st) r (GET key), disk_get_out D (trace st) r key),
           st\<lparr>trace := trace st @ [Call r (GET key) (disk_ret D (trace st) r (GET key))]\<rparr>)
    \<and> put D ri key val version st
        = (disk_ret D (trace st) r (PUT key val version),
           st\<lparr>trace := trace st
                @ [Call r (PUT key val version) (disk_ret D (trace st) r (PUT key val version))]\<rparr>)
    \<and> del D ri key st
        = (disk_ret D (trace st) r (DEL key),
           st\<lparr>trace := trace st @ [Call r (DEL key) (disk_ret D (trace st) r (DEL key))]\<rparr>))"
proof -
  have absent: "map_of (m_disks st) ri = None" if "ri \<notin> fst ` set (m_disks st)"
    using that by (simp add: map_of_eq_None_iff)
  show ?thesis
    by (auto simp: get_def put_def del_def get_region_disk_def map_find_def emit_def Let_def
          absent)
qed

theorem get_put_del_missingdisk_witness:
  "region_of 2 \<notin> fst ` set (m_disks (hosting [(region_of 1, 0)]))
   \<and> get quiet_disk (region_of 2) [1] [] 7 (hosting [(region_of 1, 0)])
       = ((MISSINGDISK, [], 7), hosting [(region_of 1, 0)])
   \<and> map_of (m_disks (hosting [(region_of 1, 0)])) (region_of 1) = Some 0
   \<and> fst (put quiet_disk (region_of 1) [1] [] 7 (hosting [(region_of 1, 0)])) = DIDNOTHING"
  using get_put_del_missingdisk [of "region_of 2" "hosting [(region_of 1, 0)]" quiet_disk "[1]" "[]" 7]
    get_put_del_missingdisk [of "region_of 1" "hosting [(region_of 1, 0)]" quiet_disk "[1]" "[]" 7]
  by (simp add: hosting_def region_of_def quiet_disk_def)

section \<open>Extending a segment list\<close>

text \<open>
  C8. \<open>add\<close> on a handle \<open>l1\<close> of the heap returns a new handle \<open>l2\<close> whose entries are those
  of \<open>l1\<close> followed by the new entry, and every handle \<open>l\<close> returned before (\<open>l1\<close> among them)
  answers \<open>get_lower_bound\<close>, \<open>get_segment\<close> and the length as it did before the call.
\<close>

theorem add_keeps_old_handles:
  assumes "l1 < length heap"
  shows "\<exists>l2 heap'. add heap l1 x seg = Some (l2, heap')
           \<and> m_segments (heap' ! l2) = m_segments (heap ! l1) @ [(x, seg)]
           \<and> m_sz (heap' ! l2) = m_sz (heap ! l1) + 1
           \<and> (\<forall>l<length heap. \<forall>i.
                 get_lower_bound heap' l i = get_lower_bound heap l i
               \<and> get_segment heap' l i = get_segment heap l i
               \<and> list_length heap' l = list_length heap l)"
  using assms
  by (simp add: add_def Let_def get_lower_bound_def get_segment_def list_length_def nth_append)

theorem add_keeps_old_handles_witness:
  "(0::nat) < length [\<lparr>m_ref = 1, m_sz = 1, m_segments = [(0, 5)]\<rparr>]
   \<and> (\<exists>l2 heap'. add [\<lparr>m_ref = 1, m_sz = 1, m_segments = [(0, 5)]\<rparr>] 0 64 6 = Some (l2, heap')
        \<and> m_segments (heap' ! l2) = [(0, 5), (64, 6)]
        \<and> get_lower_bound heap' 0 1 = None
        \<and> get_lower_bound heap' l2 1 = Some 64)"
  using add_keeps_old_handles [of 0 "[\<lparr>m_ref = 1, m_sz = 1, m_segments = [(0, 5)]\<rparr>]" 64 6]
  by (auto simp: add_def Let_def get_lower_bound_def)

section \<open>prepare\<close>

subsection \<open>The map\<close>

lemma map_of_insort_key:
  "map_of m k = None \<Longrightarrow> map_of (insort_key fst (k, v) m) = (map_of m)(k \<mapsto> v)"
  by (induction m) (auto split: if_splits)

lemma map_of_map_insert:
  "map_of (map_insert k v m) = (case map_of m k of Some _ \<Rightarrow> map_of m | None \<Rightarrow> (map_of m)(k \<mapsto> v))"
  by (simp add: map_insert_def map_of_insort_key split: option.splits)

lemma map_of_map_insert_append:
  "map_of (map_insert k v m) = map_of (m @ [(k, v)])"
  by (auto simp: map_of_map_insert map_add_def fun_eq_iff split: option.splits)

lemma keys_map_insert: "fst ` set (map_insert k v m) = insert k (fst ` set m)"
  by (auto simp: map_insert_def set_insort_key map_of_eq_None_iff split: option.splits
      dest: map_of_SomeD weak_map_of_SomeI) (metis fst_conv image_eqI map_of_SomeD)

lemma distinct_map_insert:
  "distinct (map fst m) \<Longrightarrow> distinct (map fst (map_insert k v m))"
proof -
  have "distinct (map fst (insort_key fst (k, v) m))" if "distinct (map fst m)" "k \<notin> fst ` set m"
    using that by (induction m) (auto simp: set_insort_key)
  then show "distinct (map fst m) \<Longrightarrow> ?thesis"
    by (auto simp: map_insert_def map_of_eq_None_iff split: option.splits)
qed

lemma sorted_map_insert:
  "sorted (map fst m) \<Longrightarrow> sorted (map fst (map_insert k v m))"
  by (auto simp: map_insert_def sorted_insort_key split: option.splits)

subsection \<open>The history of a run of prepare\<close>

lemma create_calls_append [simp]: "create_calls (a @ b) = create_calls a @ create_calls b"
  by (simp add: create_calls_def)
lemma created_disks_append [simp]: "created_disks (a @ b) = created_disks a @ created_disks b"
  by (simp add: created_disks_def)
lemma logic_errors_append [simp]: "logic_errors (a @ b) = logic_errors a + logic_errors b"
  by (simp add: logic_errors_def)

lemma grows_refl: "grows st [] st"
  by (simp add: grows_def created_disks_def)

lemma grows_trans: "grows st a st1 \<Longrightarrow> grows st1 b st2 \<Longrightarrow> grows st (a @ b) st2"
  unfolding grows_def
  apply (rule conjI)
   apply (cases st, cases st1, cases st2, simp)
  apply (simp add: map_add_def fun_eq_iff split: option.splits)
  done

lemma serve_grows:
  "\<exists>evs. grows st evs (serve cfg ri st) \<and> create_calls evs = answer cfg ri
     \<and> logic_errors evs = (if map_find ri (regions cfg) = None then 1 else 0)"
proof (cases "map_find ri (regions cfg)")
  case None
  then show ?thesis
    by (intro exI [of _ "[Log ERROR LogicErrorInConfiguration]"])
       (simp add: serve_def emit_def grows_def created_disks_def create_calls_def answer_def
          logic_errors_def)
next
  case (Some c)
  let ?evs = "[Log INFO (Creating ri (c mod 65536)),
               Create (next_disk st) (m_base st, ri) (disk_hasher cfg (region_get_subspace ri))
                 (c mod 65536)]"
  from Some show ?thesis
    by (intro exI [of _ ?evs])
       (simp add: serve_def emit_def grows_def created_disks_def create_calls_def answer_def
          logic_errors_def create_disk_def Let_def map_of_map_insert_append)
qed

lemma fold_serve_grows:
  "\<exists>evs. grows st evs (fold (serve cfg) rs st)
     \<and> create_calls evs = concat (map (answer cfg) rs)
     \<and> logic_errors evs = length (filter (\<lambda>ri. map_find ri (regions cfg) = None) rs)"
proof (induction rs arbitrary: st)
  case Nil
  show ?case by (intro exI [of _ "[]"]) (simp add: grows_refl create_calls_def logic_errors_def)
next
  case (Cons r rs)
  obtain a where a: "grows st a (serve cfg r st)" "create_calls a = answer cfg r"
    "logic_errors a = (if map_find r (regions cfg) = None then 1 else 0)"
    using serve_grows by blast
  obtain b where b: "grows (serve cfg r st) b (fold (serve cfg) rs (serve cfg r st))"
    "create_calls b = concat (map (answer cfg) rs)"
    "logic_errors b = length (filter (\<lambda>ri. map_find ri (regions cfg) = None) rs)"
    using Cons.IH by blast
  show ?case
    using a b by (intro exI [of _ "a @ b"]) (simp add: grows_trans)
qed

lemma prepare_entity_serve:
  "prepare_entity cfg us disks e = fold (serve cfg) (entity_request us disks e)"
  by (auto simp: prepare_entity_def entity_request_def serve_def fun_eq_iff entity_get_subspace_def
        region_get_subspace_def split: option.splits)

lemma prepare_transfer_serve:
  "prepare_transfer cfg disks t = fold (serve cfg) (transfer_request disks t)"
  by (auto simp: prepare_transfer_def transfer_request_def serve_def fun_eq_iff)

lemma fold_fold_concat:
  "(\<And>x. h x = fold f (g x)) \<Longrightarrow> fold h xs s = fold f (concat (map g xs)) s"
  by (induction xs arbitrary: s) simp_all

lemma prepare_serve:
  "prepare cfg us st = fold (serve cfg) (requested cfg us (m_disks st)) st"
  by (simp add: prepare_def Let_def requested_def
        fold_fold_concat [where h = "prepare_entity cfg us (m_disks st)", OF prepare_entity_serve]
        fold_fold_concat [where h = "prepare_transfer cfg (m_disks st)", OF prepare_transfer_serve])

lemma prepare_grows:
  "\<exists>evs. grows st evs (prepare cfg us st)
     \<and> create_calls evs = concat (map (answer cfg) (requested cfg us (m_disks st)))
     \<and> logic_errors evs
         = length (filter (\<lambda>ri. map_find ri (regions cfg) = None) (requested cfg us (m_disks st)))"
  unfolding prepare_serve by (rule fold_serve_grows)

lemma map_find_None: "map_find k m = None \<longleftrightarrow> k \<notin> fst ` set m"
  by (simp add: map_find_def map_of_eq_None_iff)

lemma set_entity_requests:
  "set (concat (map (entity_request us disks) es)) =
     {ri. ri \<notin> fst ` set disks
        \<and> (\<exists>e\<in>set es. space (get_region (fst e)) \<noteq> sentinel_space \<and> snd e = us \<and> get_region (fst e) = ri)}"
proof (induction es)
  case Nil
  show ?case by simp
next
  case (Cons e es)
  show ?case
    unfolding list.map concat.simps set_append Cons.IH
    by (auto simp: entity_request_def map_find_None)
qed

lemma set_transfer_requests:
  "set (concat (map (transfer_request disks) ts)) =
     {ri. ri \<notin> fst ` set disks \<and> (\<exists>t\<in>set ts. snd t = ri)}"
proof (induction ts)
  case Nil
  show ?case by simp
next
  case (Cons t ts)
  show ?case
    unfolding list.map concat.simps set_append Cons.IH
    by (auto simp: transfer_request_def map_find_None)
qed

lemma set_requested:
  "set (requested cfg us disks) =
     {ri. ri \<notin> fst ` set disks
        \<and> ((\<exists>e\<in>set (entity_mapping cfg).
               space (get_region (fst e)) \<noteq> sentinel_space \<and> snd e = us \<and> get_region (fst e) = ri)
           \<or> (\<exists>t\<in>set (transfers_to cfg us). snd t = ri))}"
  unfolding requested_def set_append set_entity_requests set_transfer_requests by blast

lemma set_answers:
  "set (concat (map (answer cfg) rs)) =
     {(ri, disk_hasher cfg (region_get_subspace ri), c mod 65536) | ri c.
        ri \<in> set rs \<and> map_of (regions cfg) ri = Some c}"
proof (induction rs)
  case Nil
  show ?case by simp
next
  case (Cons r rs)
  have "set (answer cfg r) =
     {(ri, disk_hasher cfg (region_get_subspace ri), c mod 65536) | ri c.
        ri = r \<and> map_of (regions cfg) ri = Some c}"
    by (cases "map_of (regions cfg) r") (simp_all add: answer_def map_find_def)
  then show ?case
    unfolding list.map concat.simps set_append Cons.IH by (simp add: set_eq_iff) blast
qed

lemma fst_created_disks: "map fst (created_disks evs) = map fst (create_calls evs)"
  by (induction evs) (auto simp: created_disks_def create_calls_def split: event.splits)

lemma grows_keys:
  assumes "grows st evs st'"
  shows "fst ` set (m_disks st') = fst ` set (m_disks st) \<union> fst ` set (create_calls evs)"
proof -
  have "dom (map_of (m_disks st')) = dom (map_of (m_disks st @ created_disks evs))"
    using assms by (simp add: grows_def)
  then have "fst ` set (m_disks st') = fst ` set (m_disks st) \<union> fst ` set (created_disks evs)"
    by (simp only: dom_map_of_conv_image_fst set_append image_Un)
  moreover have "fst ` set (created_disks evs) = fst ` set (create_calls evs)"
    using fst_created_disks [of evs] by (metis set_map)
  ultimately show ?thesis by simp
qed

lemma grows_trace: "grows st evs st' \<Longrightarrow> trace st' = trace st @ evs"
  unfolding grows_def by (erule conjE, erule ssubst) simp

lemma logic_errors_pos:
  "0 < logic_errors evs \<longleftrightarrow> Log ERROR LogicErrorInConfiguration \<in> set evs"
  by (auto simp: logic_errors_def filter_empty_conv)

lemma prepare_effects:
  "\<exists>evs. trace (prepare cfg us st) = trace st @ evs
     \<and> set (create_calls evs) =
         {(ri, disk_hasher cfg (region_get_subspace ri), c mod 65536) | ri c.
            ri \<notin> fst ` set (m_disks st) \<and> map_of (regions cfg) ri = Some c
            \<and> ((\<exists>e\<in>set (entity_mapping cfg).
                   space (get_region (fst e)) \<noteq> sentinel_space \<and> snd e = us \<and> get_region (fst e) = ri)
               \<or> (\<exists>t\<in>set (transfers_to cfg us). snd t = ri))}
     \<and> fst ` set (m_disks (prepare cfg us st)) =
         fst ` set (m_disks st) \<union>
         {ri. map_of (regions cfg) ri \<noteq> None
            \<and> ((\<exists>e\<in>set (entity_mapping cfg).
                   space (get_region (fst e)) \<noteq> sentinel_space \<and> snd e = us \<and> get_region (fst e) = ri)
               \<or> (\<exists>t\<in>set (transfers_to cfg us). snd t = ri))}
     \<and> (Log ERROR LogicErrorInConfiguration \<in> set evs \<longleftrightarrow>
          (\<exists>ri. ri \<notin> fst ` set (m_disks st) \<and> map_of (regions cfg) ri = None
            \<and> ((\<exists>e\<in>set (entity_mapping cfg).
                   space (get_region (fst e)) \<noteq> sentinel_space \<and> snd e = us \<and> get_region (fst e) = ri)
               \<or> (\<exists>t\<in>set (transfers_to cfg us). snd t = ri))))"
proof -
  let ?rs = "requested cfg us (m_disks st)"
  obtain evs where g: "grows st evs (prepare cfg us st)"
    and c: "create_calls evs = concat (map (answer cfg) ?rs)"
    and l: "logic_errors evs = length (filter (\<lambda>ri. map_find ri (regions cfg) = None) ?rs)"
    using prepare_grows [of st cfg us] by (elim exE conjE)
  have t: "trace (prepare cfg us st) = trace st @ evs"
    using g by (rule grows_trace)
  have s: "set (create_calls evs) =
         {(ri, disk_hasher cfg (region_get_subspace ri), c mod 65536) | ri c.
            ri \<notin> fst ` set (m_disks st) \<and> map_of (regions cfg) ri = Some c
            \<and> ((\<exists>e\<in>set (entity_mapping cfg).
                   space (get_region (fst e)) \<noteq> sentinel_space \<and> snd e = us \<and> get_region (fst e) = ri)
               \<or> (\<exists>t\<in>set (transfers_to cfg us). snd t = ri))}"
    unfolding c set_answers set_requested by blast
  have k: "fst ` set (m_disks (prepare cfg us st)) =
         fst ` set (m_disks st) \<union>
         {ri. map_of (regions cfg) ri \<noteq> None
            \<and> ((\<exists>e\<in>set (entity_mapping cfg).
                   space (get_region (fst e)) \<noteq> sentinel_space \<and> snd e = us \<and> get_region (fst e) = ri)
               \<or> (\<exists>t\<in>set (transfers_to cfg us). snd t = ri))}"
    unfolding grows_keys [OF g] s by force
  have e: "Log ERROR LogicErrorInConfiguration \<in> set evs \<longleftrightarrow>
          (\<exists>ri. ri \<notin> fst ` set (m_disks st) \<and> map_of (regions cfg) ri = None
            \<and> ((\<exists>e\<in>set (entity_mapping cfg).
                   space (get_region (fst e)) \<noteq> sentinel_space \<and> snd e = us \<and> get_region (fst e) = ri)
               \<or> (\<exists>t\<in>set (transfers_to cfg us). snd t = ri)))"
  proof -
    have "Log ERROR LogicErrorInConfiguration \<in> set evs
          \<longleftrightarrow> (\<exists>ri\<in>set ?rs. map_of (regions cfg) ri = None)"
      unfolding logic_errors_pos [symmetric] l
      by (auto simp: filter_empty_conv map_find_def)
    then show ?thesis unfolding set_requested by blast
  qed
  from t s k e show ?thesis by blast
qed

lemma serve_absent:
  "map_find ri (regions cfg) = None \<Longrightarrow>
     m_disks (serve cfg ri st) = m_disks st \<and> next_disk (serve cfg ri st) = next_disk st
     \<and> create_calls (trace (serve cfg ri st)) = create_calls (trace st)"
  by (simp add: serve_def emit_def create_calls_def)

lemma fold_serve_absent:
  "\<forall>ri\<in>set rs. map_find ri (regions cfg) = None \<Longrightarrow>
     m_disks (fold (serve cfg) rs st) = m_disks st
     \<and> next_disk (fold (serve cfg) rs st) = next_disk st
     \<and> create_calls (trace (fold (serve cfg) rs st)) = create_calls (trace st)"
  by (induction rs arbitrary: st) (simp_all add: serve_absent)

lemma requested_after_prepare:
  assumes "ri \<in> set (requested cfg us (m_disks (prepare cfg us st)))"
  shows "map_find ri (regions cfg) = None"
proof (rule ccontr)
  assume "map_find ri (regions cfg) \<noteq> None"
  then have tab: "map_of (regions cfg) ri \<noteq> None" by (simp add: map_find_def)
  have cond: "(\<exists>e\<in>set (entity_mapping cfg).
               space (get_region (fst e)) \<noteq> sentinel_space \<and> snd e = us \<and> get_region (fst e) = ri)
           \<or> (\<exists>t\<in>set (transfers_to cfg us). snd t = ri)"
    and out: "ri \<notin> fst ` set (m_disks (prepare cfg us st))"
    using assms unfolding set_requested by blast+
  obtain evs where "fst ` set (m_disks (prepare cfg us st)) =
         fst ` set (m_disks st) \<union>
         {ri. map_of (regions cfg) ri \<noteq> None
            \<and> ((\<exists>e\<in>set (entity_mapping cfg).
                   space (get_region (fst e)) \<noteq> sentinel_space \<and> snd e = us \<and> get_region (fst e) = ri)
               \<or> (\<exists>t\<in>set (transfers_to cfg us). snd t = ri))}"
    using prepare_effects [of cfg us st] by (elim exE conjE)
  with tab cond have "ri \<in> fst ` set (m_disks (prepare cfg us st))" by blast
  with out show False by contradiction
qed

lemma count_answers:
  "length (filter (\<lambda>c. fst c = ri) (concat (map (answer cfg) rs)))
     = (if map_find ri (regions cfg) = None then 0 else length (filter (\<lambda>r. r = ri) rs))"
  by (induction rs) (auto simp: answer_def split: option.splits)

lemma count_entity_requests:
  "length (filter (\<lambda>r. r = ri) (concat (map (entity_request us disks) es)))
     = (if ri \<in> fst ` set disks then 0
        else length (filter (\<lambda>e. space (get_region (fst e)) \<noteq> sentinel_space \<and> snd e = us
                                \<and> get_region (fst e) = ri) es))"
  by (induction es) (auto simp: entity_request_def map_find_None)

lemma count_transfer_requests:
  "length (filter (\<lambda>r. r = ri) (concat (map (transfer_request disks) ts)))
     = (if ri \<in> fst ` set disks then 0 else length (filter (\<lambda>t. snd t = ri) ts))"
  by (induction ts) (auto simp: transfer_request_def map_find_None)

lemma serve_distinct:
  "distinct (map fst (m_disks st)) \<Longrightarrow> distinct (map fst (m_disks (serve cfg ri st)))"
  by (simp add: serve_def create_disk_def emit_def Let_def distinct_map_insert split: option.splits)

lemma fold_serve_distinct:
  "distinct (map fst (m_disks st)) \<Longrightarrow> distinct (map fst (m_disks (fold (serve cfg) rs st)))"
  by (induction rs arbitrary: st) (simp_all add: serve_distinct)

lemma serve_sorted:
  "sorted (map fst (m_disks st)) \<Longrightarrow> sorted (map fst (m_disks (serve cfg ri st)))"
  by (simp add: serve_def create_disk_def emit_def Let_def sorted_map_insert split: option.splits)

lemma fold_serve_sorted:
  "sorted (map fst (m_disks st)) \<Longrightarrow> sorted (map fst (m_disks (fold (serve cfg) rs st)))"
  by (induction rs arbitrary: st) (simp_all add: serve_sorted)

subsection \<open>Two concrete runs\<close>

lemma sentinel_region_of: "space (region_of m) \<noteq> sentinel_space"
  by (simp add: region_of_def sentinel_space_def)

lemma region_of_eq: "region_of a = region_of b \<longleftrightarrow> a = b"
  by (simp add: region_of_def)

lemma crowded_run:
  "prepare crowded_config 7 (hosting []) =
     (hosting [])\<lparr>m_disks := [(region_of 1, 0)], next_disk := 3,
       trace := [Log INFO (Creating (region_of 1) 3), Create 0 (''data'', region_of 1) 0 3,
                 Log INFO (Creating (region_of 1) 3), Create 1 (''data'', region_of 1) 0 3,
                 Log ERROR LogicErrorInConfiguration,
                 Log INFO (Creating (region_of 1) 3), Create 2 (''data'', region_of 1) 0 3]\<rparr>"
  by (simp add: crowded_config_def prepare_def prepare_entity_def prepare_transfer_def
        map_find_def hosting_def create_disk_def emit_def sentinel_region_of Let_def
        map_insert_def region_get_subspace_def entity_get_subspace_def region_of_eq)

subsection \<open>Which disks prepare creates\<close>

text \<open>
  C2, as amended. \<open>prepare\<close> always returns; the events \<open>evs\<close> it adds to the history hold
  a \<open>create_disk\<close> call for exactly the regions that are not hosted yet, have an entry in the
  column-count table, and are the region of an entity of a non-sentinel space assigned to
  \<open>us\<close> or the target of a transfer to \<open>us\<close>; each call carries the hashing strategy of the
  region's subspace and the table's column count reduced modulo 65536 (the parameter is a
  \<open>uint16_t\<close>), which is the table's count whenever that is below 65536. Afterwards exactly
  these regions are hosted in addition to the old ones. A configuration error is logged
  exactly when some such region has no entry in the table.
\<close>

theorem prepare_creates_wanted_disks:
  "\<exists>evs. trace (prepare cfg us st) = trace st @ evs
     \<and> set (create_calls evs) =
         {(ri, disk_hasher cfg (region_get_subspace ri), c mod 65536) | ri c.
            ri \<notin> fst ` set (m_disks st) \<and> map_of (regions cfg) ri = Some c
            \<and> ((\<exists>e\<in>set (entity_mapping cfg).
                   space (get_region (fst e)) \<noteq> sentinel_space \<and> snd e = us \<and> get_region (fst e) = ri)
               \<or> (\<exists>t\<in>set (transfers_to cfg us). snd t = ri))}
     \<and> fst ` set (m_disks (prepare cfg us st)) =
         fst ` set (m_disks st) \<union>
         {ri. map_of (regions cfg) ri \<noteq> None
            \<and> ((\<exists>e\<in>set (entity_mapping cfg).
                   space (get_region (fst e)) \<noteq> sentinel_space \<and> snd e = us \<and> get_region (fst e) = ri)
               \<or> (\<exists>t\<in>set (transfers_to cfg us). snd t = ri))}
     \<and> (Log ERROR LogicErrorInConfiguration \<in> set evs \<longleftrightarrow>
          (\<exists>ri. ri \<notin> fst ` set (m_disks st) \<and> map_of (regions cfg) ri = None
            \<and> ((\<exists>e\<in>set (entity_mapping cfg).
                   space (get_region (fst e)) \<noteq> sentinel_space \<and> snd e = us \<and> get_region (fst e) = ri)
               \<or> (\<exists>t\<in>set (transfers_to cfg us). snd t = ri))))"
  by (rule prepare_effects)

theorem prepare_creates_wanted_disks_witness:
  "create_calls (trace (prepare crowded_config 7 (hosting [])))
     = [(region_of 1, 0, 3), (region_of 1, 0, 3), (region_of 1, 0, 3)]
   \<and> Log ERROR LogicErrorInConfiguration \<in> set (trace (prepare crowded_config 7 (hosting [])))
   \<and> fst ` set (m_disks (prepare crowded_config 7 (hosting []))) = {region_of 1}"
  using prepare_creates_wanted_disks [of crowded_config 7 "hosting []"]
  by (simp add: crowded_run create_calls_def)

text \<open>
  C2 as stated fails on the column count: with 65536 columns in the table the disk is
  created with 0 columns.
\<close>

theorem prepare_column_count_counterexample:
  "map_of (regions wide_config) (region_of 1) = Some 65536
   \<and> create_calls (trace (prepare wide_config 7 (hosting []))) = [(region_of 1, 0, 0)]"
  by (simp add: wide_config_def prepare_def prepare_entity_def map_find_def hosting_def
        create_disk_def emit_def create_calls_def sentinel_region_of Let_def)

subsection \<open>Running prepare twice\<close>

text \<open>
  C4. A second \<open>prepare\<close> with the same configuration and the same instance leaves the
  region-to-disk map as the first one left it, allocates no disk and adds no \<open>create_disk\<close>
  call to the history.
\<close>

theorem prepare_idempotent:
  "m_disks (prepare cfg us (prepare cfg us st)) = m_disks (prepare cfg us st)
   \<and> next_disk (prepare cfg us (prepare cfg us st)) = next_disk (prepare cfg us st)
   \<and> create_calls (trace (prepare cfg us (prepare cfg us st)))
       = create_calls (trace (prepare cfg us st))"
  unfolding prepare_serve [of cfg us "prepare cfg us st"]
  by (rule fold_serve_absent) (simp add: requested_after_prepare)

theorem prepare_idempotent_witness:
  "m_disks (prepare crowded_config 7 (prepare crowded_config 7 (hosting []))) = [(region_of 1, 0)]
   \<and> length (create_calls (trace (prepare crowded_config 7 (prepare crowded_config 7 (hosting []))))) = 3"
  using prepare_idempotent [of crowded_config 7 "hosting []"]
  by (simp add: crowded_run create_calls_def)

subsection \<open>Several creations for one region\<close>

text \<open>
  C9. For a region that is not hosted when \<open>prepare\<close> starts and has an entry in the
  column-count table, \<open>create_disk\<close> is called once for every entity of that region assigned to
  \<open>us\<close> (sentinel space apart) and once more for every transfer to \<open>us\<close> that names it, since
  every test looks at the copy of the map taken at entry. A lookup in the map afterwards
  finds the entry that was there before or else the first of the disks created for the
  region, and a map without duplicate keys stays without duplicate keys.
\<close>

theorem prepare_duplicate_creation:
  "\<exists>evs. trace (prepare cfg us st) = trace st @ evs
     \<and> (ri \<notin> fst ` set (m_disks st) \<and> map_of (regions cfg) ri \<noteq> None \<longrightarrow>
          length (filter (\<lambda>c. fst c = ri) (create_calls evs))
          = length (filter (\<lambda>e. space (get_region (fst e)) \<noteq> sentinel_space \<and> snd e = us
                                 \<and> get_region (fst e) = ri) (entity_mapping cfg))
            + length (filter (\<lambda>t. snd t = ri) (transfers_to cfg us)))
     \<and> map_of (m_disks (prepare cfg us st)) = map_of (m_disks st @ created_disks evs)
     \<and> (distinct (map fst (m_disks st)) \<longrightarrow> distinct (map fst (m_disks (prepare cfg us st))))"
proof -
  obtain evs where g: "grows st evs (prepare cfg us st)"
    and c: "create_calls evs = concat (map (answer cfg) (requested cfg us (m_disks st)))"
    using prepare_grows [of st cfg us] by (elim exE conjE)
  have "trace (prepare cfg us st) = trace st @ evs"
    using g by (rule grows_trace)
  moreover have "map_of (m_disks (prepare cfg us st)) = map_of (m_disks st @ created_disks evs)"
    using g by (simp add: grows_def)
  moreover have "distinct (map fst (m_disks st)) \<longrightarrow> distinct (map fst (m_disks (prepare cfg us st)))"
    unfolding prepare_serve by (simp add: fold_serve_distinct)
  moreover have "ri \<notin> fst ` set (m_disks st) \<and> map_of (regions cfg) ri \<noteq> None \<longrightarrow>
          length (filter (\<lambda>c. fst c = ri) (create_calls evs))
          = length (filter (\<lambda>e. space (get_region (fst e)) \<noteq> sentinel_space \<and> snd e = us
                                 \<and> get_region (fst e) = ri) (entity_mapping cfg))
            + length (filter (\<lambda>t. snd t = ri) (transfers_to cfg us))"
    unfolding c count_answers requested_def filter_append length_append
      count_entity_requests count_transfer_requests
    by (simp add: map_find_def)
  ultimately show ?thesis by blast
qed

theorem prepare_duplicate_creation_witness:
  "region_of 1 \<notin> fst ` set (m_disks (hosting []))
   \<and> map_of (regions crowded_config) (region_of 1) \<noteq> None
   \<and> distinct (map fst (m_disks (hosting [])))
   \<and> length (filter (\<lambda>c. fst c = region_of 1)
        (create_calls (trace (prepare crowded_config 7 (hosting []))))) = 3
   \<and> m_disks (prepare crowded_config 7 (hosting [])) = [(region_of 1, 0)]
   \<and> distinct (map fst (m_disks (prepare crowded_config 7 (hosting []))))"
  using prepare_duplicate_creation [of crowded_config 7 "hosting []" "region_of 1"]
  by (simp add: crowded_run create_calls_def) (simp add: hosting_def crowded_config_def)

section \<open>cleanup\<close>

subsection \<open>The entities of one region\<close>

lemma drop_calls_append [simp]: "drop_calls (a @ b) = drop_calls a @ drop_calls b"
  by (simp add: drop_calls_def)

lemma uint8_le_max: "(n :: 8 word) \<le> UINT8_MAX"
proof -
  have "unat n < 2 ^ LENGTH(8)" by (rule unsigned_less)
  then show ?thesis by (simp add: UINT8_MAX_def word_le_nat_alt)
qed

lemma entity_range:
  "entityid ri 0 \<le> k \<and> k \<le> entityid ri UINT8_MAX \<longleftrightarrow> get_region k = ri"
  by (auto simp: less_eq_entityid_def uint8_le_max)

lemma dropWhile_sorted:
  "sorted (map fst m) \<Longrightarrow> dropWhile (\<lambda>e. fst e < lo) m = filter (\<lambda>e. lo \<le> fst e) m"
proof (induction m)
  case Nil
  show ?case by simp
next
  case (Cons x xs)
  show ?case
  proof (cases "fst x < lo")
    case True
    with Cons show ?thesis by simp
  next
    case False
    with Cons.prems have "\<forall>y\<in>set xs. lo \<le> fst y" by fastforce
    then have "filter (\<lambda>e. lo \<le> fst e) xs = xs" by simp
    with False show ?thesis by simp
  qed
qed

lemma takeWhile_sorted:
  "sorted (map fst m) \<Longrightarrow> takeWhile (\<lambda>e. fst e \<le> hi) m = filter (\<lambda>e. fst e \<le> hi) m"
proof (induction m)
  case Nil
  show ?case by simp
next
  case (Cons x xs)
  show ?case
  proof (cases "fst x \<le> hi")
    case True
    with Cons show ?thesis by simp
  next
    case False
    with Cons.prems have "\<forall>y\<in>set xs. \<not> fst y \<le> hi" by fastforce
    then have "filter (\<lambda>e. fst e \<le> hi) xs = []" by simp
    with False show ?thesis by simp
  qed
qed

lemma map_range_sorted:
  assumes "sorted (map fst m)"
  shows "map_range lo hi m = filter (\<lambda>e. lo \<le> fst e \<and> fst e \<le> hi) m"
proof -
  have "sorted (map fst (filter (\<lambda>e. lo \<le> fst e) m))"
    using assms by (simp add: sorted_filter)
  then show ?thesis
    unfolding map_range_def dropWhile_sorted [OF assms] by (simp add: takeWhile_sorted)
qed

lemma fold_keep: "fold (\<lambda>e keep. if P e then True else keep) xs k \<longleftrightarrow> k \<or> (\<exists>e\<in>set xs. P e)"
  by (induction xs arbitrary: k) auto

lemma keep_disk_iff:
  assumes "sorted (map fst (entity_mapping cfg))"
  shows "keep_disk cfg us transfers ri \<longleftrightarrow>
           (\<exists>e\<in>set (entity_mapping cfg). get_region (fst e) = ri \<and> snd e = us)
         \<or> (\<exists>t\<in>set transfers. snd t = ri)"
  unfolding keep_disk_def Let_def fold_keep map_range_sorted [OF assms]
  by (simp add: entity_range) force

subsection \<open>The loop over the hosted disks\<close>

lemma map_of_map_erase:
  "map_of (map_erase k m) k' = (if k' = k then None else map_of m k')"
  by (induction m) (auto simp: map_erase_def)

lemma drop_disk_hosted:
  assumes "map_of (m_disks st) ri = Some d"
  shows "drop_disk D ri st =
           st\<lparr>trace := trace st @ [Log INFO (Dropping ri),
                   Call d DROP (disk_ret D (trace st @ [Log INFO (Dropping ri)]) d DROP)],
              m_disks := map_erase ri (m_disks st)\<rparr>"
  using assms by (simp add: drop_disk_def map_find_def emit_def Let_def)

lemma fold_cleanup_disk:
  assumes "distinct (map fst ds)"
    and "\<forall>x\<in>set ds. map_of (m_disks st) (fst x) = Some (snd x)"
  shows "\<exists>evs. fold (cleanup_disk D cfg us ts) ds st =
           st\<lparr>trace := trace st @ evs,
              m_disks := filter (\<lambda>e. fst e \<in> fst ` set ds \<longrightarrow> keep_disk cfg us ts (fst e))
                           (m_disks st)\<rparr>
         \<and> drop_calls evs = map snd (filter (\<lambda>x. \<not> keep_disk cfg us ts (fst x)) ds)"
  using assms
proof (induction ds arbitrary: st)
  case Nil
  show ?case by (intro exI [of _ "[]"]) (simp add: drop_calls_def)
next
  case (Cons x xs)
  show ?case
  proof (cases "keep_disk cfg us ts (fst x)")
    case True
    from Cons.prems have "distinct (map fst xs)"
      and "\<forall>y\<in>set xs. map_of (m_disks st) (fst y) = Some (snd y)" by simp_all
    from Cons.IH [OF this] obtain evs where
      f: "fold (cleanup_disk D cfg us ts) xs st =
           st\<lparr>trace := trace st @ evs,
              m_disks := filter (\<lambda>e. fst e \<in> fst ` set xs \<longrightarrow> keep_disk cfg us ts (fst e))
                           (m_disks st)\<rparr>"
      and d: "drop_calls evs = map snd (filter (\<lambda>x. \<not> keep_disk cfg us ts (fst x)) xs)"
      by blast
    have fe: "filter (\<lambda>e. fst e \<in> fst ` set xs \<longrightarrow> keep_disk cfg us ts (fst e)) (m_disks st)
        = filter (\<lambda>e. fst e \<in> fst ` set (x # xs) \<longrightarrow> keep_disk cfg us ts (fst e)) (m_disks st)"
      using True by (intro filter_cong refl) auto
    have step: "fold (cleanup_disk D cfg us ts) (x # xs) st = fold (cleanup_disk D cfg us ts) xs st"
      using True by (simp add: cleanup_disk_def)
    have dc: "drop_calls evs = map snd (filter (\<lambda>x. \<not> keep_disk cfg us ts (fst x)) (x # xs))"
      using d True by simp
    show ?thesis
      unfolding step f fe by (rule exI [of _ evs]) (rule conjI [OF refl dc])
  next
    case False
    let ?st1 = "drop_disk D (fst x) st"
    let ?new = "[Log INFO (Dropping (fst x)),
                 Call (snd x) DROP (disk_ret D (trace st @ [Log INFO (Dropping (fst x))]) (snd x) DROP)]"
    from Cons.prems have look: "map_of (m_disks st) (fst x) = Some (snd x)" by simp
    have st1: "?st1 = st\<lparr>trace := trace st @ ?new, m_disks := map_erase (fst x) (m_disks st)\<rparr>"
      by (rule drop_disk_hosted [OF look])
    from Cons.prems have dist: "distinct (map fst xs)" and notin: "fst x \<notin> fst ` set xs"
      by simp_all
    have "\<forall>y\<in>set xs. map_of (m_disks ?st1) (fst y) = Some (snd y)"
    proof
      fix y assume y: "y \<in> set xs"
      with notin have "fst y \<noteq> fst x" by (metis image_eqI)
      moreover from y Cons.prems have "map_of (m_disks st) (fst y) = Some (snd y)" by simp
      ultimately show "map_of (m_disks ?st1) (fst y) = Some (snd y)"
        by (simp add: st1 map_of_map_erase)
    qed
    from Cons.IH [OF dist this] obtain evs where
      f: "fold (cleanup_disk D cfg us ts) xs ?st1 =
           ?st1\<lparr>trace := trace ?st1 @ evs,
              m_disks := filter (\<lambda>e. fst e \<in> fst ` set xs \<longrightarrow> keep_disk cfg us ts (fst e))
                           (m_disks ?st1)\<rparr>"
      and d: "drop_calls evs = map snd (filter (\<lambda>x. \<not> keep_disk cfg us ts (fst x)) xs)"
      by blast
    have fe: "filter (\<lambda>e. fst e \<in> fst ` set xs \<longrightarrow> keep_disk cfg us ts (fst e))
            (map_erase (fst x) (m_disks st))
        = filter (\<lambda>e. fst e \<in> fst ` set (x # xs) \<longrightarrow> keep_disk cfg us ts (fst e)) (m_disks st)"
      unfolding map_erase_def filter_filter using False by (intro filter_cong refl) auto
    have step: "fold (cleanup_disk D cfg us ts) (x # xs) st = fold (cleanup_disk D cfg us ts) xs ?st1"
      using False by (simp add: cleanup_disk_def)
    have m1: "m_disks ?st1 = map_erase (fst x) (m_disks st)"
      and t1: "trace ?st1 = trace st @ ?new"
      by (simp_all add: st1)
    have eq: "?st1\<lparr>trace := trace ?st1 @ evs,
              m_disks := filter (\<lambda>e. fst e \<in> fst ` set xs \<longrightarrow> keep_disk cfg us ts (fst e))
                           (m_disks ?st1)\<rparr>
           = st\<lparr>trace := trace st @ (?new @ evs),
              m_disks := filter (\<lambda>e. fst e \<in> fst ` set (x # xs) \<longrightarrow> keep_disk cfg us ts (fst e))
                           (m_disks st)\<rparr>"
      unfolding m1 t1 fe by (subst st1) simp
    have dc: "drop_calls (?new @ evs)
            = map snd (filter (\<lambda>x. \<not> keep_disk cfg us ts (fst x)) (x # xs))"
      using d False by (simp add: drop_calls_def)
    show ?thesis
      unfolding step f eq by (rule exI [of _ "?new @ evs"]) (rule conjI [OF refl dc])
  qed
qed

lemma region_of_le: "region_of a \<le> region_of b \<longleftrightarrow> a \<le> b"
  by (simp add: region_of_def less_eq_regionid_def region_key_def)

lemma region_of_less: "region_of a < region_of b \<longleftrightarrow> a < b"
  by (simp add: region_of_def less_regionid_def region_key_def)

lemma moved_sorted: "sorted (map fst (entity_mapping moved_config))"
  by (simp add: moved_config_def less_eq_entityid_def region_of_le region_of_less)

lemma four_distinct: "distinct (map fst (m_disks (hosting four_disks)))"
  by (simp add: hosting_def four_disks_def region_of_eq)

text \<open>
  C1. Let the entity mapping be in key order and the region-to-disk map have one entry per
  region, as a \<open>std::map\<close> has. \<open>cleanup\<close> keeps exactly the entries of the hosted regions
  that have an entity assigned to \<open>us\<close> in the entity mapping or are the target of a transfer
  to \<open>us\<close>; the entries of all other hosted regions are erased, \<open>drop\<close> is called on the
  disks of exactly these, once each and in the order of the map, and nothing else of the
  state changes but the history.
\<close>

theorem cleanup_keeps_assigned_and_targets:
  assumes "sorted (map fst (entity_mapping cfg))" and "distinct (map fst (m_disks st))"
  shows "\<exists>evs. cleanup D cfg us st =
           st\<lparr>trace := trace st @ evs,
              m_disks := filter (\<lambda>e.
                  (\<exists>a\<in>set (entity_mapping cfg). get_region (fst a) = fst e \<and> snd a = us)
                  \<or> (\<exists>t\<in>set (transfers_to cfg us). snd t = fst e)) (m_disks st)\<rparr>
         \<and> drop_calls evs = map snd (filter (\<lambda>e.
                  \<not> ((\<exists>a\<in>set (entity_mapping cfg). get_region (fst a) = fst e \<and> snd a = us)
                  \<or> (\<exists>t\<in>set (transfers_to cfg us). snd t = fst e))) (m_disks st))"
proof -
  have "\<forall>x\<in>set (m_disks st). map_of (m_disks st) (fst x) = Some (snd x)"
    using assms(2) by simp
  from fold_cleanup_disk [OF assms(2) this, of D cfg us "transfers_to cfg us"]
  obtain evs where
    f: "fold (cleanup_disk D cfg us (transfers_to cfg us)) (m_disks st) st =
           st\<lparr>trace := trace st @ evs,
              m_disks := filter (\<lambda>e. fst e \<in> fst ` set (m_disks st)
                    \<longrightarrow> keep_disk cfg us (transfers_to cfg us) (fst e)) (m_disks st)\<rparr>"
    and d: "drop_calls evs
          = map snd (filter (\<lambda>x. \<not> keep_disk cfg us (transfers_to cfg us) (fst x)) (m_disks st))"
    by blast
  have "filter (\<lambda>e. fst e \<in> fst ` set (m_disks st)
                    \<longrightarrow> keep_disk cfg us (transfers_to cfg us) (fst e)) (m_disks st)
      = filter (\<lambda>e. keep_disk cfg us (transfers_to cfg us) (fst e)) (m_disks st)"
    by (intro filter_cong refl) auto
  with f d show ?thesis
    unfolding keep_disk_iff [OF assms(1)]
    by (intro exI [of _ evs]) (simp add: cleanup_def Let_def)
qed

theorem cleanup_keeps_assigned_and_targets_witness:
  "sorted (map fst (entity_mapping moved_config))
   \<and> distinct (map fst (m_disks (hosting four_disks)))
   \<and> m_disks (cleanup quiet_disk moved_config 7 (hosting four_disks))
       = [(region_of 1, 0), (region_of 2, 1)]
   \<and> drop_calls (trace (cleanup quiet_disk moved_config 7 (hosting four_disks))) = [2, 3]"
  using cleanup_keeps_assigned_and_targets [OF moved_sorted four_distinct, of quiet_disk 7]
  by (clarsimp simp: moved_sorted four_distinct)
     (simp add: hosting_def four_disks_def moved_config_def region_of_eq drop_calls_def)

section \<open>The maintenance thread\<close>

subsection \<open>One walk over a round-robin queue\<close>

lemma calls_append [simp]: "calls c (a @ b) = calls c a @ calls c b"
  by (simp add: calls_def)

lemma calls_Nil [simp]: "calls c [] = []"
  by (simp add: calls_def)

lemma calls_Call [simp]: "calls c (Call d c' rc # tr) = (if c' = c then [(d, rc)] else []) @ calls c tr"
  by (simp add: calls_def)

lemma calls_Log [simp]: "calls c (Log s m # tr) = calls c tr"
  by (simp add: calls_def)

lemma rr_walk_Nil: "rr_walk D disks c w i [] tr sl = ([], tr, sl)"
  by (subst rr_walk.simps) simp

lemma rr_walk_Cons:
  "rr_walk D disks c w i (r # q) tr sl =
     (if i \<le> length q then
        (case map_of disks r of
           None \<Rightarrow> rr_walk D disks c w (Suc i) q tr sl
         | Some d \<Rightarrow>
             (if disk_ret D tr d c = SUCCESS
              then (q @ [r], tr @ [Call d c SUCCESS], False)
              else if disk_ret D tr d c = DIDNOTHING
              then rr_walk D disks c w (Suc i) (q @ [r]) (tr @ [Call d c DIDNOTHING]) sl
              else rr_walk D disks c w (Suc i) (q @ [r])
                     (tr @ [Call d c (disk_ret D tr d c), Log WARNING w]) sl))
      else (r # q, tr, sl))"
  by (subst rr_walk.simps) (simp add: map_find_def Let_def split: option.splits)

lemma rr_walk_spec:
  "\<exists>p s evs. q = p @ s \<and> length p \<le> length q - i \<and> (i < length q \<longrightarrow> p \<noteq> [])
     \<and> rr_walk D disks c w i q tr sl
         = (s @ filter (hosted disks) p, tr @ evs, sl \<and> SUCCESS \<notin> snd ` set (calls c evs))
     \<and> walked disks c w p s evs"
proof (induction "length q - i" arbitrary: i q tr sl rule: less_induct)
  case less
  show ?case
  proof (cases q)
    case Nil
    then show ?thesis
      by (rule_tac x = "[]" in exI, rule_tac x = "[]" in exI, rule_tac x = "[]" in exI)
         (simp add: walked_def rr_walk_Nil)
  next
    case (Cons r q1)
    show ?thesis
    proof (cases "i \<le> length q1")
      case False
      with Cons show ?thesis
        by (rule_tac x = "[]" in exI, rule_tac x = q in exI, rule_tac x = "[]" in exI)
           (simp add: rr_walk_Cons walked_def)
    next
      case True
      show ?thesis
      proof (cases "map_of disks r")
        case None
        have "length q1 - Suc i < length q - i" using True Cons by simp
        from less [OF this, of tr sl] obtain p s evs where
          ih: "q1 = p @ s" "length p \<le> length q1 - Suc i"
            "rr_walk D disks c w (Suc i) q1 tr sl
               = (s @ filter (hosted disks) p, tr @ evs, sl \<and> SUCCESS \<notin> snd ` set (calls c evs))"
            "walked disks c w p s evs"
          by blast
        have "\<not> hosted disks r" using None by (simp add: hosted_def)
        with ih True Cons None show ?thesis
          by (rule_tac x = "r # p" in exI, rule_tac x = s in exI, rule_tac x = evs in exI)
             (simp add: rr_walk_Cons walked_def)
      next
        case (Some d)
        then have h: "hosted disks r" by (simp add: hosted_def)
        let ?ret = "disk_ret D tr d c"
        show ?thesis
        proof (cases "?ret = SUCCESS")
          case succ: True
          with Cons True Some h show ?thesis
            by (rule_tac x = "[r]" in exI, rule_tac x = q1 in exI, rule_tac x = "[Call d c SUCCESS]" in exI)
               (simp add: rr_walk_Cons walked_def)
        next
          case nosucc: False
          let ?new = "if ?ret = DIDNOTHING then [Call d c ?ret] else [Call d c ?ret, Log WARNING w]"
          have m: "length (q1 @ [r]) - Suc i < length q - i" using True Cons by simp
          from less [OF m, of "tr @ ?new" sl] obtain p s evs where
            ih: "q1 @ [r] = p @ s" "length p \<le> length (q1 @ [r]) - Suc i"
              "rr_walk D disks c w (Suc i) (q1 @ [r]) (tr @ ?new) sl
                 = (s @ filter (hosted disks) p, (tr @ ?new) @ evs,
                    sl \<and> SUCCESS \<notin> snd ` set (calls c evs))"
              "walked disks c w p s evs"
            by blast
          from ih(2) have lp: "length p \<le> length q1" by simp
          from ih(1) lp have q1: "q1 = p @ butlast s" and s: "s = butlast s @ [r]"
            by (auto simp: append_eq_append_conv2 append_eq_Cons_conv butlast_append
                  split: if_splits)
          have run: "rr_walk D disks c w i q tr sl
                 = (s @ filter (hosted disks) p, tr @ (?new @ evs),
                    sl \<and> SUCCESS \<notin> snd ` set (calls c evs))"
            using Cons True Some nosucc ih(3)
            by (cases "disk_ret D tr d c = DIDNOTHING") (simp_all add: rr_walk_Cons)
          have res: "s @ filter (hosted disks) p = butlast s @ filter (hosted disks) (r # p)"
            using h by (subst s) simp
          have suc: "SUCCESS \<notin> snd ` set (calls c (?new @ evs))
                   \<longleftrightarrow> SUCCESS \<notin> snd ` set (calls c evs)"
            using nosucc by simp
          have w: "walked disks c w (r # p) (butlast s) (?new @ evs)"
            using ih(4) h Some by (auto simp: walked_def)
          have qq: "q = (r # p) @ butlast s" using Cons q1 by simp
          have len: "length (r # p) \<le> length q - i"
            using ih(2) True Cons by simp
          have ne: "i < length q \<longrightarrow> r # p \<noteq> []" by simp
          have run': "rr_walk D disks c w i q tr sl
                 = (butlast s @ filter (hosted disks) (r # p), tr @ (?new @ evs),
                    sl \<and> SUCCESS \<notin> snd ` set (calls c (?new @ evs)))"
            unfolding run res suc ..
          from qq len ne run' w show ?thesis by blast
        qed
      qed
    qed
  qed
qed

subsection \<open>The flush loop\<close>

lemma io_errors_append [simp]: "io_errors (a @ b) = io_errors a @ io_errors b"
  by (simp add: io_errors_def)

lemma io_errors_simps [simp]:
  "io_errors [] = []"
  "io_errors (Call d c rc # tr) = io_errors tr"
  "io_errors (Log ERROR (DiskIOReturned rc) # tr) = rc # io_errors tr"
  "io_errors (Log ERROR (DiskFlushReturned rc) # tr) = io_errors tr"
  by (simp_all add: io_errors_def)

lemma flush_walked_Nil: "flush_walked [] []"
  by (simp add: flush_walked_def)

lemma flush_walked_append:
  "flush_walked [x] a \<Longrightarrow> flush_walked xs b \<Longrightarrow> flush_walked (x # xs) (a @ b)"
  by (auto simp: flush_walked_def)

lemma flush_disk_spec:
  "\<exists>evs. flush_disk D x (tr, sl)
           = (tr @ evs, sl \<and> SUCCESS \<notin> snd ` set (calls (FLUSH 10000) evs))
         \<and> flush_walked [x] evs"
proof -
  let ?d = "snd x"
  let ?ret = "disk_ret D tr ?d (FLUSH 10000)"
  let ?tr1 = "tr @ [Call ?d (FLUSH 10000) ?ret]"
  let ?ioret = "disk_ret D ?tr1 ?d DO_MANDATORY_IO"
  consider (succ) "?ret = SUCCESS" | (nothing) "?ret = DIDNOTHING"
    | (full) "?ret = DATAFULL \<or> ?ret = SEARCHFULL" | (other) "?ret = MISSINGDISK \<or> ?ret = FAILURE"
    by (cases ?ret) auto
  then show ?thesis
  proof cases
    case succ
    then show ?thesis
      by (rule_tac x = "[Call ?d (FLUSH 10000) ?ret]" in exI)
         (simp add: flush_disk_def Let_def flush_walked_def)
  next
    case nothing
    then show ?thesis
      by (rule_tac x = "[Call ?d (FLUSH 10000) ?ret]" in exI)
         (simp add: flush_disk_def Let_def flush_walked_def)
  next
    case other
    then show ?thesis
      by (rule_tac x = "[Call ?d (FLUSH 10000) ?ret, Log ERROR (DiskFlushReturned ?ret)]" in exI)
         (auto simp: flush_disk_def Let_def flush_walked_def)
  next
    case full
    show ?thesis
    proof (cases "?ioret \<noteq> SUCCESS \<and> ?ioret \<noteq> DIDNOTHING")
      case True
      with full show ?thesis
        by (rule_tac x = "[Call ?d (FLUSH 10000) ?ret, Call ?d DO_MANDATORY_IO ?ioret,
                            Log ERROR (DiskIOReturned ?ioret)]" in exI)
           (auto simp: flush_disk_def Let_def flush_walked_def)
    next
      case False
      with full show ?thesis
        by (rule_tac x = "[Call ?d (FLUSH 10000) ?ret, Call ?d DO_MANDATORY_IO ?ioret]" in exI)
           (auto simp: flush_disk_def Let_def flush_walked_def)
    qed
  qed
qed

lemma fold_flush_disk_spec:
  "\<exists>evs. fold (flush_disk D) ds (tr, sl)
           = (tr @ evs, sl \<and> SUCCESS \<notin> snd ` set (calls (FLUSH 10000) evs))
         \<and> flush_walked ds evs"
proof (induction ds arbitrary: tr sl)
  case Nil
  show ?case by (rule exI [of _ "[]"]) (simp add: flush_walked_Nil)
next
  case (Cons x xs)
  obtain a where a: "flush_disk D x (tr, sl)
           = (tr @ a, sl \<and> SUCCESS \<notin> snd ` set (calls (FLUSH 10000) a))"
    and wa: "flush_walked [x] a"
    using flush_disk_spec [of D x tr sl] by blast
  obtain b where b: "fold (flush_disk D) xs (tr @ a, sl \<and> SUCCESS \<notin> snd ` set (calls (FLUSH 10000) a))
           = ((tr @ a) @ b, (sl \<and> SUCCESS \<notin> snd ` set (calls (FLUSH 10000) a))
                \<and> SUCCESS \<notin> snd ` set (calls (FLUSH 10000) b))"
    and wb: "flush_walked xs b"
    using Cons [of "tr @ a" "sl \<and> SUCCESS \<notin> snd ` set (calls (FLUSH 10000) a)"] by blast
  have "fold (flush_disk D) (x # xs) (tr, sl)
           = (tr @ (a @ b), sl \<and> SUCCESS \<notin> snd ` set (calls (FLUSH 10000) (a @ b)))"
    by (simp add: a b) blast
  with flush_walked_append [OF wa wb] show ?case by blast
qed

subsection \<open>One iteration\<close>

lemma observe_region_eq:
  "observe_region i st =
     st\<lparr>m_preallocate_rr := observed [i] (m_preallocate_rr st),
        m_optimistic_rr := observed [i] (m_optimistic_rr st)\<rparr>"
  by (simp add: observe_region_def observed_def)

lemma observed_Cons: "observed (i # ds) q = observed ds (observed [i] q)"
  by (simp add: observed_def)

lemma fold_observe_region:
  "fold observe_region ds st =
     st\<lparr>m_preallocate_rr := observed ds (m_preallocate_rr st),
        m_optimistic_rr := observed ds (m_optimistic_rr st)\<rparr>"
proof (induction ds arbitrary: st)
  case Nil
  show ?case by (simp add: observed_def)
next
  case (Cons i ds)
  show ?case
    unfolding fold_Cons comp_apply Cons observed_Cons [of i ds]
    by (subst (1 2 3) observe_region_eq) simp
qed

lemma walk_passed:
  "\<exists>q' evs. rr_walk D disks c w 0 q tr sl
              = (q', tr @ evs, sl \<and> SUCCESS \<notin> snd ` set (calls c evs))
           \<and> passed disks c w True q q' evs"
proof -
  obtain p s evs where "q = p @ s" "0 < length q \<longrightarrow> p \<noteq> []"
    "rr_walk D disks c w 0 q tr sl
       = (s @ filter (hosted disks) p, tr @ evs, sl \<and> SUCCESS \<notin> snd ` set (calls c evs))"
    "walked disks c w p s evs"
    using rr_walk_spec [of q 0 D disks c w tr sl] by blast
  then show ?thesis
    unfolding passed_def by (intro exI conjI) auto
qed

lemma closed_passed: "passed disks c w False q q []"
  unfolding passed_def
  by (rule exI [of _ "[]"], rule exI [of _ q]) (simp add: walked_def)

lemma gated_preallocate_pass:
  "\<exists>q' evs.
     (if gate then preallocate_pass D disks now (s, sl) else (s, sl))
       = (s\<lparr>m_preallocate_rr := q', trace := trace s @ evs,
             m_last_preallocation := (if gate then now else m_last_preallocation s)\<rparr>,
          sl \<and> SUCCESS \<notin> snd ` set (calls PREALLOCATE evs))
     \<and> passed disks PREALLOCATE PreallocationFailed gate (m_preallocate_rr s) q' evs"
proof (cases gate)
  case False
  then show ?thesis
    by (rule_tac x = "m_preallocate_rr s" in exI, rule_tac x = "[]" in exI)
       (simp add: closed_passed)
next
  case True
  obtain q' evs where
    "rr_walk D disks PREALLOCATE PreallocationFailed 0 (m_preallocate_rr s) (trace s) sl
       = (q', trace s @ evs, sl \<and> SUCCESS \<notin> snd ` set (calls PREALLOCATE evs))"
    "passed disks PREALLOCATE PreallocationFailed True (m_preallocate_rr s) q' evs"
    using walk_passed by blast
  with True show ?thesis
    by (rule_tac x = q' in exI, rule_tac x = evs in exI) (simp add: preallocate_pass_def)
qed

lemma gated_optimistic_pass:
  "\<exists>q' evs.
     (if gate then optimistic_pass D disks now (s, sl) else (s, sl))
       = (s\<lparr>m_optimistic_rr := q', trace := trace s @ evs,
             m_last_dose_of_optimism := (if gate then now else m_last_dose_of_optimism s)\<rparr>,
          sl \<and> SUCCESS \<notin> snd ` set (calls DO_OPTIMISTIC_IO evs))
     \<and> passed disks DO_OPTIMISTIC_IO OptimisticIOFailed gate (m_optimistic_rr s) q' evs"
proof (cases gate)
  case False
  then show ?thesis
    by (rule_tac x = "m_optimistic_rr s" in exI, rule_tac x = "[]" in exI)
       (simp add: closed_passed)
next
  case True
  obtain q' evs where
    "rr_walk D disks DO_OPTIMISTIC_IO OptimisticIOFailed 0 (m_optimistic_rr s) (trace s) sl
       = (q', trace s @ evs, sl \<and> SUCCESS \<notin> snd ` set (calls DO_OPTIMISTIC_IO evs))"
    "passed disks DO_OPTIMISTIC_IO OptimisticIOFailed True (m_optimistic_rr s) q' evs"
    using walk_passed by blast
  with True show ?thesis
    by (rule_tac x = q' in exI, rule_tac x = evs in exI) (simp add: optimistic_pass_def)
qed

lemma flush_loop_body_spec:
  "\<exists>evp evo evf.
     passed (m_disks st) PREALLOCATE PreallocationFailed
       (time_elapsed (preallocate_check clk) (m_last_preallocation st))
       (observed (m_disks st) (m_preallocate_rr st))
       (m_preallocate_rr (flush_loop_body D clk st)) evp
   \<and> passed (m_disks st) DO_OPTIMISTIC_IO OptimisticIOFailed
       (time_elapsed (optimism_check clk) (m_last_dose_of_optimism st))
       (observed (m_disks st) (m_optimistic_rr st))
       (m_optimistic_rr (flush_loop_body D clk st)) evo
   \<and> flush_walked (m_disks st) evf
   \<and> trace (flush_loop_body D clk st)
       = trace st @ evp @ evo @ evf
         @ (if SUCCESS \<notin> snd ` set (calls PREALLOCATE evp)
               \<and> SUCCESS \<notin> snd ` set (calls DO_OPTIMISTIC_IO evo)
               \<and> SUCCESS \<notin> snd ` set (calls (FLUSH 10000) evf)
            then [Sleep 0 100] else [])
   \<and> m_disks (flush_loop_body D clk st) = m_disks st
   \<and> m_shutdown (flush_loop_body D clk st) = m_shutdown st
   \<and> m_last_preallocation (flush_loop_body D clk st)
       = (if time_elapsed (preallocate_check clk) (m_last_preallocation st)
          then preallocate_done clk else m_last_preallocation st)
   \<and> m_last_dose_of_optimism (flush_loop_body D clk st)
       = (if time_elapsed (optimism_check clk) (m_last_dose_of_optimism st)
          then optimism_done clk else m_last_dose_of_optimism st)"
proof -
  let ?disks = "m_disks st"
  let ?gp = "time_elapsed (preallocate_check clk) (m_last_preallocation st)"
  let ?go = "time_elapsed (optimism_check clk) (m_last_dose_of_optimism st)"
  define st1 where "st1 = fold observe_region ?disks st"
  have st1: "st1 = st\<lparr>m_preallocate_rr := observed ?disks (m_preallocate_rr st),
                        m_optimistic_rr := observed ?disks (m_optimistic_rr st)\<rparr>"
    unfolding st1_def by (rule fold_observe_region)
  define s2 where "s2 = (if time_elapsed (preallocate_check clk) (m_last_preallocation st1)
                then preallocate_pass D ?disks (preallocate_done clk) (st1, True)
                else (st1, True))"
  define s3 where "s3 = (if time_elapsed (optimism_check clk) (m_last_dose_of_optimism (fst s2))
                then optimistic_pass D ?disks (optimism_done clk) s2
                else s2)"
  define s4 where "s4 = fold (flush_disk D) ?disks (trace (fst s3), snd s3)"
  have body: "flush_loop_body D clk st =
      (if snd s4 then emit [Sleep 0 100] ((fst s3)\<lparr>trace := fst s4\<rparr>) else (fst s3)\<lparr>trace := fst s4\<rparr>)"
    unfolding flush_loop_body_def Let_def s4_def s3_def s2_def st1_def ..
  have lp1: "m_last_preallocation st1 = m_last_preallocation st" by (simp add: st1)
  obtain qp evp where
    s2: "s2 = (st1\<lparr>m_preallocate_rr := qp, trace := trace st1 @ evp,
                   m_last_preallocation := (if ?gp then preallocate_done clk
                                            else m_last_preallocation st1)\<rparr>,
               True \<and> SUCCESS \<notin> snd ` set (calls PREALLOCATE evp))"
    and pp: "passed ?disks PREALLOCATE PreallocationFailed ?gp (m_preallocate_rr st1) qp evp"
    unfolding s2_def
    using gated_preallocate_pass [of "time_elapsed (preallocate_check clk) (m_last_preallocation st1)"
            D ?disks "preallocate_done clk" st1 True]
    unfolding lp1 by blast
  have lo2: "m_last_dose_of_optimism (fst s2) = m_last_dose_of_optimism st"
    by (simp add: s2 st1)
  have s2pair: "s2 = (fst s2, snd s2)" by simp
  obtain qo evo where
    s3: "s3 = ((fst s2)\<lparr>m_optimistic_rr := qo, trace := trace (fst s2) @ evo,
                   m_last_dose_of_optimism := (if ?go then optimism_done clk
                                               else m_last_dose_of_optimism (fst s2))\<rparr>,
               snd s2 \<and> SUCCESS \<notin> snd ` set (calls DO_OPTIMISTIC_IO evo))"
    and po: "passed ?disks DO_OPTIMISTIC_IO OptimisticIOFailed ?go (m_optimistic_rr (fst s2)) qo evo"
    unfolding s3_def
    using gated_optimistic_pass [of "time_elapsed (optimism_check clk) (m_last_dose_of_optimism (fst s2))"
            D ?disks "optimism_done clk" "fst s2" "snd s2"]
    unfolding lo2 prod.collapse by blast
  obtain evf where
    s4: "s4 = (trace (fst s3) @ evf, snd s3 \<and> SUCCESS \<notin> snd ` set (calls (FLUSH 10000) evf))"
    and pf: "flush_walked ?disks evf"
    unfolding s4_def using fold_flush_disk_spec [of D ?disks "trace (fst s3)" "snd s3"] by blast
  have qp1: "m_preallocate_rr st1 = observed ?disks (m_preallocate_rr st)"
    and qo1: "m_optimistic_rr (fst s2) = observed ?disks (m_optimistic_rr st)"
    by (simp_all add: st1 s2)
  have f3: "m_preallocate_rr (fst s3) = qp" "m_optimistic_rr (fst s3) = qo"
    "m_disks (fst s3) = m_disks st" "m_shutdown (fst s3) = m_shutdown st"
    "trace (fst s3) = trace st @ evp @ evo"
    "m_last_preallocation (fst s3) = (if ?gp then preallocate_done clk else m_last_preallocation st)"
    "m_last_dose_of_optimism (fst s3) = (if ?go then optimism_done clk else m_last_dose_of_optimism st)"
    by (simp_all add: s3 s2 st1)
  have sl: "snd s4 \<longleftrightarrow> SUCCESS \<notin> snd ` set (calls PREALLOCATE evp)
               \<and> SUCCESS \<notin> snd ` set (calls DO_OPTIMISTIC_IO evo)
               \<and> SUCCESS \<notin> snd ` set (calls (FLUSH 10000) evf)"
    by (simp add: s4 s3 s2)
  have t4: "fst s4 = trace st @ evp @ evo @ evf" by (simp add: s4 f3)
  have r: "m_preallocate_rr (flush_loop_body D clk st) = qp"
    "m_optimistic_rr (flush_loop_body D clk st) = qo"
    "m_disks (flush_loop_body D clk st) = m_disks st"
    "m_shutdown (flush_loop_body D clk st) = m_shutdown st"
    "m_last_preallocation (flush_loop_body D clk st)
       = (if ?gp then preallocate_done clk else m_last_preallocation st)"
    "m_last_dose_of_optimism (flush_loop_body D clk st)
       = (if ?go then optimism_done clk else m_last_dose_of_optimism st)"
    unfolding body by (simp_all add: emit_def f3)
  have t: "trace (flush_loop_body D clk st)
       = trace st @ evp @ evo @ evf
         @ (if SUCCESS \<notin> snd ` set (calls PREALLOCATE evp)
               \<and> SUCCESS \<notin> snd ` set (calls DO_OPTIMISTIC_IO evo)
               \<and> SUCCESS \<notin> snd ` set (calls (FLUSH 10000) evf)
            then [Sleep 0 100] else [])"
    unfolding body sl [symmetric] by (simp add: emit_def t4)
  from pp po pf t r show ?thesis
    unfolding qp1 qo1 by blast
qed

lemma calls_notin:
  "set evs \<subseteq> {ev. (\<exists>d rc. ev = Call d c rc) \<or> ev = Log WARNING w} \<Longrightarrow> c' \<noteq> c \<Longrightarrow> calls c' evs = []"
  by (induction evs) auto

lemma io_errors_notin:
  "set evs \<subseteq> {ev. (\<exists>d rc. ev = Call d c rc) \<or> ev = Log WARNING w} \<Longrightarrow> io_errors evs = []"
  by (induction evs) (auto simp: io_errors_def)

lemma passed_calls: "passed disks c w gate q q' evs \<Longrightarrow> c' \<noteq> c \<Longrightarrow> calls c' evs = []"
  unfolding passed_def walked_def by (blast intro: calls_notin)

lemma passed_io_errors: "passed disks c w gate q q' evs \<Longrightarrow> io_errors evs = []"
  unfolding passed_def walked_def by (blast intro: io_errors_notin)

lemma passed_no_sleep: "passed disks c w gate q q' evs \<Longrightarrow> Sleep a b \<notin> set evs"
  unfolding passed_def walked_def by blast

lemma flush_walked_calls:
  "flush_walked ds evs \<Longrightarrow> c \<noteq> FLUSH 10000 \<Longrightarrow> c \<noteq> DO_MANDATORY_IO \<Longrightarrow> calls c evs = []"
proof -
  have "set evs \<subseteq> {ev. (\<exists>d rc. ev = Call d (FLUSH 10000) rc)
                       \<or> (\<exists>d rc. ev = Call d DO_MANDATORY_IO rc) \<or> (\<exists>m. ev = Log ERROR m)}
        \<Longrightarrow> c \<noteq> FLUSH 10000 \<Longrightarrow> c \<noteq> DO_MANDATORY_IO \<Longrightarrow> calls c evs = []"
    by (induction evs) auto
  then show "flush_walked ds evs \<Longrightarrow> c \<noteq> FLUSH 10000 \<Longrightarrow> c \<noteq> DO_MANDATORY_IO \<Longrightarrow> ?thesis"
    by (simp add: flush_walked_def)
qed

lemma flush_walked_no_sleep: "flush_walked ds evs \<Longrightarrow> Sleep a b \<notin> set evs"
  unfolding flush_walked_def by blast

lemma calls_Sleep [simp]: "calls c (Sleep a b # tr) = calls c tr"
  by (simp add: calls_def)

lemma io_errors_Sleep [simp]: "io_errors (Sleep a b # tr) = io_errors tr"
  by (simp add: io_errors_def)

subsection \<open>Runs on concrete inputs\<close>

lemma busy_trace:
  "trace (flush_loop_body busy_disk (tick 600000000) (hosting three_disks)) =
     [Call 0 PREALLOCATE DIDNOTHING, Call 1 PREALLOCATE DIDNOTHING, Call 2 PREALLOCATE DIDNOTHING,
      Call 0 DO_OPTIMISTIC_IO DIDNOTHING, Call 1 DO_OPTIMISTIC_IO DIDNOTHING,
      Call 2 DO_OPTIMISTIC_IO DIDNOTHING,
      Call 0 (FLUSH 10000) DATAFULL, Call 0 DO_MANDATORY_IO FAILURE,
      Log ERROR (DiskIOReturned FAILURE),
      Call 1 (FLUSH 10000) SEARCHFULL, Call 1 DO_MANDATORY_IO SUCCESS,
      Call 2 (FLUSH 10000) DIDNOTHING,
      Sleep 0 100]"
  by (simp add: flush_loop_body_def Let_def hosting_def three_disks_def tick_def busy_disk_def
        observe_region_def time_elapsed_def preallocate_pass_def optimistic_pass_def
        rr_walk_Cons rr_walk_Nil flush_disk_def emit_def region_of_eq)

lemmas eval_defs =
  flush_loop_body_def Let_def hosting_def tick_def
  observe_region_def time_elapsed_def preallocate_pass_def optimistic_pass_def
  rr_walk_Cons rr_walk_Nil flush_disk_def emit_def region_of_eq

lemma region_of_le_unat: "region_of a \<le> region_of b \<longleftrightarrow> unat a \<le> unat b"
  by (simp add: region_of_def less_eq_regionid_def region_key_def word_le_nat_alt)

lemma region_of_less_unat: "region_of a < region_of b \<longleftrightarrow> unat a < unat b"
  by (simp add: region_of_def less_regionid_def region_key_def word_less_nat_alt)

lemma after_drop_eq:
  "after_drop =
     \<lparr>m_shutdown = False, m_base = ''data'', m_disks = [(region_of 2, 1)],
      m_preallocate_rr = [region_of 1, region_of 2], m_last_preallocation = 600000000,
      m_optimistic_rr = [region_of 1, region_of 2], m_last_dose_of_optimism = 600000000,
      trace = [Call 0 PREALLOCATE DIDNOTHING, Call 1 PREALLOCATE DIDNOTHING,
               Call 0 DO_OPTIMISTIC_IO DIDNOTHING, Call 1 DO_OPTIMISTIC_IO DIDNOTHING,
               Call 0 (FLUSH 10000) DIDNOTHING, Call 1 (FLUSH 10000) DIDNOTHING, Sleep 0 100,
               Log INFO (Dropping (region_of 1)), Call 0 DROP DIDNOTHING],
      next_disk = 2\<rparr>"
  by (simp add: after_drop_def eval_defs two_disks_def quiet_disk_def shrunk_config_def
        cleanup_def cleanup_disk_def keep_disk_def map_range_def drop_disk_def map_find_def
        map_erase_def less_eq_entityid_def less_entityid_def region_of_le_unat region_of_less_unat
        UINT8_MAX_def)

lemma after_drop_window:
  "flush_loop_body quiet_disk (tick 1200000000) after_drop =
     after_drop\<lparr>m_preallocate_rr := [region_of 2], m_last_preallocation := 1200000000,
       m_optimistic_rr := [region_of 2], m_last_dose_of_optimism := 1200000000,
       trace := trace after_drop @ [Call 1 (FLUSH 10000) DIDNOTHING, Sleep 0 100]\<rparr>"
  by (simp add: after_drop_eq eval_defs quiet_disk_def map_find_def)

lemma eager_calls:
  "calls PREALLOCATE
     (trace (flush_loop_while eager_disk [tick 600000000, tick 1200000000, tick 1800000000]
               (hosting three_disks)))
   = [(0, SUCCESS), (1, SUCCESS), (2, SUCCESS)]"
  by (simp add: eval_defs three_disks_def eager_disk_def map_find_def)

subsection \<open>Mandatory I/O\<close>

text \<open>
  C3. Among the events \<open>evs\<close> of one iteration, every disk of the copied map is flushed
  once, in the order of the map, whatever the earlier disks answered; \<open>do_mandatory_io\<close> is
  called on exactly the disks whose flush returned \<open>DATAFULL\<close> or \<open>SEARCHFULL\<close>, in the same
  order, and nowhere else in the iteration; and the failures of \<open>do_mandatory_io\<close> (an answer
  other than \<open>SUCCESS\<close> and \<open>DIDNOTHING\<close>) are exactly the ones logged at error severity.
\<close>

theorem mandatory_io_follows_full_flush:
  "\<exists>evs. trace (flush_loop_body D clk (st :: 'h datalayer)) = trace st @ evs
     \<and> map fst (calls (FLUSH 10000) evs) = map snd (m_disks st)
     \<and> map fst (calls DO_MANDATORY_IO evs)
         = map fst (filter (\<lambda>x. snd x = DATAFULL \<or> snd x = SEARCHFULL) (calls (FLUSH 10000) evs))
     \<and> io_errors evs
         = filter (\<lambda>rc. rc \<noteq> SUCCESS \<and> rc \<noteq> DIDNOTHING) (map snd (calls DO_MANDATORY_IO evs))"
proof -
  obtain evp evo evf :: "'h event list" where
    p: "passed (m_disks st) PREALLOCATE PreallocationFailed
          (time_elapsed (preallocate_check clk) (m_last_preallocation st))
          (observed (m_disks st) (m_preallocate_rr st))
          (m_preallocate_rr (flush_loop_body D clk st)) evp"
    and o: "passed (m_disks st) DO_OPTIMISTIC_IO OptimisticIOFailed
          (time_elapsed (optimism_check clk) (m_last_dose_of_optimism st))
          (observed (m_disks st) (m_optimistic_rr st))
          (m_optimistic_rr (flush_loop_body D clk st)) evo"
    and f: "flush_walked (m_disks st) evf"
    and t0: "trace (flush_loop_body D clk st)
       = trace st @ evp @ evo @ evf
         @ (if SUCCESS \<notin> snd ` set (calls PREALLOCATE evp)
               \<and> SUCCESS \<notin> snd ` set (calls DO_OPTIMISTIC_IO evo)
               \<and> SUCCESS \<notin> snd ` set (calls (FLUSH 10000) evf)
            then [Sleep 0 100] else [])"
    using flush_loop_body_spec [of st clk D] by (elim exE conjE)
  define z :: "'h event list" where
    "z = (if SUCCESS \<notin> snd ` set (calls PREALLOCATE evp)
               \<and> SUCCESS \<notin> snd ` set (calls DO_OPTIMISTIC_IO evo)
               \<and> SUCCESS \<notin> snd ` set (calls (FLUSH 10000) evf)
            then [Sleep 0 100] else [])"
  have t: "trace (flush_loop_body D clk st) = trace st @ evp @ evo @ evf @ z"
    unfolding z_def by (rule t0)
  have z: "z = [] \<or> z = [Sleep 0 100]"
    by (simp add: z_def)
  have c: "calls (FLUSH 10000) (evp @ evo @ evf @ z) = calls (FLUSH 10000) evf"
    "calls DO_MANDATORY_IO (evp @ evo @ evf @ z) = calls DO_MANDATORY_IO evf"
    "io_errors (evp @ evo @ evf @ z) = io_errors evf"
    using z by (auto simp: passed_calls [OF p] passed_calls [OF o]
          passed_io_errors [OF p] passed_io_errors [OF o])
  from f have g: "map fst (calls (FLUSH 10000) evf) = map snd (m_disks st)
     \<and> map fst (calls DO_MANDATORY_IO evf)
         = map fst (filter (\<lambda>x. snd x = DATAFULL \<or> snd x = SEARCHFULL) (calls (FLUSH 10000) evf))
     \<and> io_errors evf
         = filter (\<lambda>rc. rc \<noteq> SUCCESS \<and> rc \<noteq> DIDNOTHING) (map snd (calls DO_MANDATORY_IO evf))"
    by (simp add: flush_walked_def)
  show ?thesis
    apply (rule exI [of _ "evp @ evo @ evf @ z"])
    unfolding c
    using t g apply blast
    done
qed

theorem mandatory_io_follows_full_flush_witness:
  "map fst (calls (FLUSH 10000)
      (trace (flush_loop_body busy_disk (tick 600000000) (hosting three_disks)))) = [0, 1, 2]
   \<and> calls DO_MANDATORY_IO
      (trace (flush_loop_body busy_disk (tick 600000000) (hosting three_disks)))
       = [(0, FAILURE), (1, SUCCESS)]
   \<and> io_errors (trace (flush_loop_body busy_disk (tick 600000000) (hosting three_disks)))
       = [FAILURE]"
  using mandatory_io_follows_full_flush [of busy_disk "tick 600000000" "hosting three_disks"]
  by (simp add: busy_trace)

text \<open>
  C10. An iteration ends with the sleep of 100 ms exactly when none of its \<open>preallocate\<close>,
  \<open>do_optimistic_io\<close> and \<open>flush\<close> calls returned \<open>SUCCESS\<close>; what \<open>do_mandatory_io\<close>
  returned plays no part. In the run below the only success of the iteration is a
  \<open>do_mandatory_io\<close>, and the iteration sleeps.
\<close>

theorem sleep_ignores_mandatory_io:
  "\<exists>evs. trace (flush_loop_body D clk st) = trace st @ evs
     \<and> (if SUCCESS \<in> snd ` set (calls PREALLOCATE evs)
           \<or> SUCCESS \<in> snd ` set (calls DO_OPTIMISTIC_IO evs)
           \<or> SUCCESS \<in> snd ` set (calls (FLUSH 10000) evs)
         then Sleep 0 100 \<notin> set evs
         else (\<exists>evs'. evs = evs' @ [Sleep 0 100]))"
proof -
  obtain evp evo evf where
    p: "passed (m_disks st) PREALLOCATE PreallocationFailed
          (time_elapsed (preallocate_check clk) (m_last_preallocation st))
          (observed (m_disks st) (m_preallocate_rr st))
          (m_preallocate_rr (flush_loop_body D clk st)) evp"
    and o: "passed (m_disks st) DO_OPTIMISTIC_IO OptimisticIOFailed
          (time_elapsed (optimism_check clk) (m_last_dose_of_optimism st))
          (observed (m_disks st) (m_optimistic_rr st))
          (m_optimistic_rr (flush_loop_body D clk st)) evo"
    and f: "flush_walked (m_disks st) evf"
    and t: "trace (flush_loop_body D clk st)
       = trace st @ evp @ evo @ evf
         @ (if SUCCESS \<notin> snd ` set (calls PREALLOCATE evp)
               \<and> SUCCESS \<notin> snd ` set (calls DO_OPTIMISTIC_IO evo)
               \<and> SUCCESS \<notin> snd ` set (calls (FLUSH 10000) evf)
            then [Sleep 0 100] else [])"
    using flush_loop_body_spec [of st clk D] by (elim exE conjE)
  let ?z = "if SUCCESS \<notin> snd ` set (calls PREALLOCATE evp)
               \<and> SUCCESS \<notin> snd ` set (calls DO_OPTIMISTIC_IO evo)
               \<and> SUCCESS \<notin> snd ` set (calls (FLUSH 10000) evf)
            then [Sleep 0 100] else []"
  have c: "calls PREALLOCATE (evp @ evo @ evf @ ?z) = calls PREALLOCATE evp"
    "calls DO_OPTIMISTIC_IO (evp @ evo @ evf @ ?z) = calls DO_OPTIMISTIC_IO evo"
    "calls (FLUSH 10000) (evp @ evo @ evf @ ?z) = calls (FLUSH 10000) evf"
    by (simp_all add: passed_calls [OF p] passed_calls [OF o] flush_walked_calls [OF f])
  have n: "Sleep 0 100 \<notin> set (evp @ evo @ evf)"
    by (simp add: passed_no_sleep [OF p] passed_no_sleep [OF o] flush_walked_no_sleep [OF f])
  show ?thesis
    apply (rule exI [of _ "evp @ evo @ evf @ ?z"])
    apply (rule conjI [OF t])
    apply (simp only: c)
    using n apply (auto simp del: calls_append)
    done
qed

theorem sleep_ignores_mandatory_io_witness:
  "Call 1 DO_MANDATORY_IO SUCCESS
     \<in> set (trace (flush_loop_body busy_disk (tick 600000000) (hosting three_disks)))
   \<and> last (trace (flush_loop_body busy_disk (tick 600000000) (hosting three_disks)))
       = Sleep 0 100"
  using sleep_ignores_mandatory_io [of busy_disk "tick 600000000" "hosting three_disks"]
  by (simp add: busy_trace)

subsection \<open>The queue across iterations\<close>

lemma served_mono: "served ds rs A \<Longrightarrow> A \<subseteq> B \<Longrightarrow> served ds rs B"
  unfolding served_def by blast

lemma served_append: "served ds (a @ b) A \<longleftrightarrow> served ds a A \<and> served ds b A"
  unfolding served_def by auto

lemma served_filter: "served ds (filter (hosted ds) rs) A \<longleftrightarrow> served ds rs A"
  unfolding served_def hosted_def by auto

lemma walked_served:
  assumes "walked ds c w p s evs"
  shows "served ds p (fst ` set (calls c evs))"
proof -
  have "set (map fst (calls c evs)) = (\<lambda>r. the (map_of ds r)) ` set (filter (hosted ds) p)"
    using assms unfolding walked_def by (metis set_map)
  then have img: "fst ` set (calls c evs) = (\<lambda>r. the (map_of ds r)) ` {r \<in> set p. hosted ds r}"
    by simp
  show ?thesis
    unfolding served_def
  proof (intro ballI allI impI)
    fix r d assume r: "r \<in> set p" and d: "map_of ds r = Some d"
    then have "r \<in> {r \<in> set p. hosted ds r}" by (simp add: hosted_def)
    then have "the (map_of ds r) \<in> fst ` set (calls c evs)"
      unfolding img by (rule imageI)
    with d show "d \<in> fst ` set (calls c evs)" by simp
  qed
qed

lemma fair_inv_closed: "fair_inv ds q0 q A n \<Longrightarrow> A \<subseteq> B \<Longrightarrow> fair_inv ds q0 q B n"
  unfolding fair_inv_def by (blast intro: served_mono)

lemma fair_inv_step:
  assumes inv: "fair_inv ds q0 q A n"
    and q: "q = p' @ s'" and ne: "q \<noteq> [] \<longrightarrow> p' \<noteq> []"
    and new: "served ds p' B" and sub: "A \<subseteq> B"
  shows "fair_inv ds q0 (s' @ filter (hosted ds) p') B (Suc n)"
proof (cases "served ds q0 A")
  case True
  then show ?thesis unfolding fair_inv_def by (blast intro: served_mono [OF _ sub])
next
  case False
  with inv obtain p s where ps: "q0 = p @ s" "q = s @ filter (hosted ds) p"
    "served ds p A" "n \<le> length p"
    unfolding fair_inv_def by blast
  from ps(3) sub have pB: "served ds p B" by (rule served_mono)
  show ?thesis
  proof (cases "length p' \<le> length s")
    case True
    with q ps(2) obtain s2 where s2: "s = p' @ s2" "s' = s2 @ filter (hosted ds) p"
      by (auto simp: append_eq_append_conv2)
    show ?thesis
    proof (cases "p' = []")
      case True
      with ne q have "q = []" by auto
      with ps(2) have "s = []" by simp
      with ps(1) pB have "served ds q0 B" by simp
      then show ?thesis unfolding fair_inv_def by blast
    next
      case False
      then have "Suc n \<le> length (p @ p')" using ps(4) by (cases p') auto
      moreover have "q0 = (p @ p') @ s2" using ps(1) s2(1) by simp
      moreover have "s' @ filter (hosted ds) p' = s2 @ filter (hosted ds) (p @ p')"
        using s2(2) by simp
      moreover have "served ds (p @ p') B" using pB new by (simp add: served_append)
      ultimately show ?thesis unfolding fair_inv_def by blast
    qed
  next
    case False
    with q ps(2) obtain p2 where "p' = s @ p2"
      by (auto simp: append_eq_append_conv2)
    with new have "served ds s B" by (simp add: served_append)
    with pB ps(1) have "served ds q0 B" by (simp add: served_append)
    then show ?thesis unfolding fair_inv_def by blast
  qed
qed

lemma fair_inv_final:
  assumes "fair_inv ds q0 q A n" and "length q0 \<le> n"
  shows "served ds q0 A"
proof (cases "served ds q0 A")
  case True
  then show ?thesis .
next
  case False
  with assms(1) obtain p s where "q0 = p @ s" "served ds p A" "n \<le> length p"
    unfolding fair_inv_def by blast
  have "length q0 = length p + length s" using \<open>q0 = p @ s\<close> by simp
  with assms(2) \<open>n \<le> length p\<close> have "length s = 0" by arith
  then have "s = []" by simp
  with \<open>q0 = p @ s\<close> \<open>served ds p A\<close> show ?thesis by simp
qed

lemma set_observed: "set (observed ds q) = set q \<union> fst ` set ds"
  unfolding observed_def by (induction ds arbitrary: q) auto

lemma observed_id: "fst ` set ds \<subseteq> set q \<Longrightarrow> observed ds q = q"
  unfolding observed_def by (induction ds arbitrary: q) auto

lemma observed_new:
  "\<exists>new. observed ds q = q @ new \<and> set new \<subseteq> fst ` set ds - set q"
  unfolding observed_def
proof (induction ds arbitrary: q)
  case Nil
  show ?case by simp
next
  case (Cons x xs)
  show ?case
  proof (cases "fst x \<in> set q")
    case True
    with Cons [of q] show ?thesis by auto
  next
    case False
    from Cons [of "q @ [fst x]"] obtain new where
      "fold (\<lambda>i q. if fst i \<notin> set q then q @ [fst i] else q) xs (q @ [fst x]) = (q @ [fst x]) @ new"
      "set new \<subseteq> fst ` set xs - set (q @ [fst x])" by blast
    with False show ?thesis
      by (rule_tac x = "fst x # new" in exI) auto
  qed
qed

lemma hosted_iff: "hosted ds r \<longleftrightarrow> r \<in> fst ` set ds"
  by (simp add: hosted_def map_of_eq_None_iff)

lemma distinct_observed: "distinct q \<Longrightarrow> distinct (observed ds q)"
  unfolding observed_def by (induction ds arbitrary: q) auto

lemma length_observed:
  assumes "distinct q" "set q \<subseteq> fst ` set ds" "distinct (map fst ds)"
  shows "length (observed ds q) = length ds"
proof -
  have "set (observed ds q) = set (map fst ds)"
    using assms(2) by (auto simp: set_observed)
  moreover have "distinct (observed ds q)" using assms(1) by (rule distinct_observed)
  ultimately have "length (observed ds q) = length (map fst ds)"
    using assms(3) by (metis distinct_card)
  then show ?thesis by simp
qed

lemma body_preallocation:
  "\<exists>p s evs. trace (flush_loop_body D clk st) = trace st @ evs
     \<and> observed (m_disks st) (m_preallocate_rr st) = p @ s
     \<and> m_preallocate_rr (flush_loop_body D clk st) = s @ filter (hosted (m_disks st)) p
     \<and> (if time_elapsed (preallocate_check clk) (m_last_preallocation st)
         then observed (m_disks st) (m_preallocate_rr st) \<noteq> [] \<longrightarrow> p \<noteq> []
         else p = [])
     \<and> served (m_disks st) p (fst ` set (calls PREALLOCATE evs))"
proof -
  obtain evp evo evf where
    p: "passed (m_disks st) PREALLOCATE PreallocationFailed
          (time_elapsed (preallocate_check clk) (m_last_preallocation st))
          (observed (m_disks st) (m_preallocate_rr st))
          (m_preallocate_rr (flush_loop_body D clk st)) evp"
    and t: "trace (flush_loop_body D clk st)
       = trace st @ evp @ evo @ evf
         @ (if SUCCESS \<notin> snd ` set (calls PREALLOCATE evp)
               \<and> SUCCESS \<notin> snd ` set (calls DO_OPTIMISTIC_IO evo)
               \<and> SUCCESS \<notin> snd ` set (calls (FLUSH 10000) evf)
            then [Sleep 0 100] else [])"
    using flush_loop_body_spec [of st clk D] by (elim exE conjE)
  let ?evs = "evp @ evo @ evf
         @ (if SUCCESS \<notin> snd ` set (calls PREALLOCATE evp)
               \<and> SUCCESS \<notin> snd ` set (calls DO_OPTIMISTIC_IO evo)
               \<and> SUCCESS \<notin> snd ` set (calls (FLUSH 10000) evf)
            then [Sleep 0 100] else [])"
  from p obtain p' s' where ps: "observed (m_disks st) (m_preallocate_rr st) = p' @ s'"
    "m_preallocate_rr (flush_loop_body D clk st) = s' @ filter (hosted (m_disks st)) p'"
    "if time_elapsed (preallocate_check clk) (m_last_preallocation st)
     then observed (m_disks st) (m_preallocate_rr st) \<noteq> [] \<longrightarrow> p' \<noteq> []
     else p' = [] \<and> evp = []"
    "walked (m_disks st) PREALLOCATE PreallocationFailed p' s' evp"
    unfolding passed_def by blast
  have "served (m_disks st) p' (fst ` set (calls PREALLOCATE evp))"
    using ps(4) by (rule walked_served)
  then have "served (m_disks st) p' (fst ` set (calls PREALLOCATE ?evs))"
    by (rule served_mono) auto
  moreover have "if time_elapsed (preallocate_check clk) (m_last_preallocation st)
         then observed (m_disks st) (m_preallocate_rr st) \<noteq> [] \<longrightarrow> p' \<noteq> []
         else p' = []"
    using ps(3) by (simp split: if_splits)
  ultimately show ?thesis using t ps(1,2) by blast
qed

lemma body_frame:
  "m_disks (flush_loop_body D clk st) = m_disks st
   \<and> m_shutdown (flush_loop_body D clk st) = m_shutdown st
   \<and> m_last_preallocation (flush_loop_body D clk st)
       = (if time_elapsed (preallocate_check clk) (m_last_preallocation st)
          then preallocate_done clk else m_last_preallocation st)"
  using flush_loop_body_spec [of st clk D] by (elim exE conjE) simp

lemma flush_loop_fair:
  assumes "\<not> m_shutdown st"
    and "fair_inv (m_disks st) q0 (observed (m_disks st) (m_preallocate_rr st)) A n"
  shows "\<exists>evs. trace (flush_loop_while D clks st) = trace st @ evs
     \<and> m_disks (flush_loop_while D clks st) = m_disks st
     \<and> fair_inv (m_disks st) q0
         (observed (m_disks st) (m_preallocate_rr (flush_loop_while D clks st)))
         (A \<union> fst ` set (calls PREALLOCATE evs))
         (n + window_count (m_last_preallocation st) clks)"
  using assms
proof (induction clks arbitrary: st A n)
  case Nil
  then show ?case by (rule_tac x = "[]" in exI) simp
next
  case (Cons clk clks)
  let ?ds = "m_disks st"
  let ?st' = "flush_loop_body D clk st"
  let ?gate = "time_elapsed (preallocate_check clk) (m_last_preallocation st)"
  obtain p s ev1 where b: "trace ?st' = trace st @ ev1"
    "observed ?ds (m_preallocate_rr st) = p @ s"
    "m_preallocate_rr ?st' = s @ filter (hosted ?ds) p"
    "if ?gate then observed ?ds (m_preallocate_rr st) \<noteq> [] \<longrightarrow> p \<noteq> [] else p = []"
    "served ?ds p (fst ` set (calls PREALLOCATE ev1))"
    using body_preallocation [of D clk st] by blast
  have fr: "m_disks ?st' = ?ds" "\<not> m_shutdown ?st'"
    "m_last_preallocation ?st' = (if ?gate then preallocate_done clk else m_last_preallocation st)"
    using body_frame [of D clk st] Cons.prems(1) by simp_all
  have "fst ` set ?ds \<subseteq> set (p @ s)"
    unfolding b(2) [symmetric] by (simp add: set_observed)
  then have "fst ` set ?ds \<subseteq> set (s @ filter (hosted ?ds) p)"
    by (auto simp: hosted_iff)
  then have obs': "observed ?ds (m_preallocate_rr ?st') = s @ filter (hosted ?ds) p"
    unfolding b(3) by (rule observed_id)
  let ?B = "A \<union> fst ` set (calls PREALLOCATE ev1)"
  let ?n' = "if ?gate then Suc n else n"
  have inv': "fair_inv ?ds q0 (observed ?ds (m_preallocate_rr ?st')) ?B ?n'"
  proof (cases ?gate)
    case True
    have "fair_inv ?ds q0 (s @ filter (hosted ?ds) p) ?B (Suc n)"
    proof (rule fair_inv_step [OF Cons.prems(2) b(2)])
      show "observed ?ds (m_preallocate_rr st) \<noteq> [] \<longrightarrow> p \<noteq> []" using b(4) True by simp
      show "served ?ds p ?B" using b(5) by (rule served_mono) simp
      show "A \<subseteq> ?B" by simp
    qed
    with True show ?thesis by (simp add: obs')
  next
    case False
    with b(4) have "p = []" by simp
    with b(2) have "s @ filter (hosted ?ds) p = observed ?ds (m_preallocate_rr st)" by simp
    with Cons.prems(2) have "fair_inv ?ds q0 (s @ filter (hosted ?ds) p) A n" by simp
    then have "fair_inv ?ds q0 (s @ filter (hosted ?ds) p) ?B n"
      by (rule fair_inv_closed) simp
    with False show ?thesis by (simp add: obs')
  qed
  from Cons.IH [of ?st' ?B ?n'] fr inv' obtain ev2 where
    r: "trace (flush_loop_while D clks ?st') = trace ?st' @ ev2"
      "m_disks (flush_loop_while D clks ?st') = ?ds"
      "fair_inv ?ds q0 (observed ?ds (m_preallocate_rr (flush_loop_while D clks ?st')))
         (?B \<union> fst ` set (calls PREALLOCATE ev2))
         (?n' + window_count (m_last_preallocation ?st') clks)"
    by auto
  have loop: "flush_loop_while D (clk # clks) st = flush_loop_while D clks ?st'"
    using Cons.prems(1) by simp
  have cnt: "?n' + window_count (m_last_preallocation ?st') clks
           = n + window_count (m_last_preallocation st) (clk # clks)"
    by (simp add: fr(3))
  have un: "?B \<union> fst ` set (calls PREALLOCATE ev2) = A \<union> fst ` set (calls PREALLOCATE (ev1 @ ev2))"
    by auto
  show ?case
    unfolding loop
    using r unfolding cnt un b(1)
    by (rule_tac x = "ev1 @ ev2" in exI) simp
qed

subsection \<open>Stale queue entries\<close>

lemma drop_disk_queues:
  "m_preallocate_rr (drop_disk D ri st) = m_preallocate_rr st
   \<and> m_optimistic_rr (drop_disk D ri st) = m_optimistic_rr st"
  by (simp add: drop_disk_def emit_def Let_def split: option.splits)

lemma fold_cleanup_disk_queues:
  "m_preallocate_rr (fold (cleanup_disk D cfg us ts) ds st) = m_preallocate_rr st
   \<and> m_optimistic_rr (fold (cleanup_disk D cfg us ts) ds st) = m_optimistic_rr st"
  by (induction ds arbitrary: st) (simp_all add: cleanup_disk_def drop_disk_queues)

lemma passed_queue:
  assumes "passed ds c w gate (observed ds q) q' evs"
  shows "\<exists>new p s. q @ new = p @ s \<and> set new \<subseteq> fst ` set ds - set q
           \<and> q' = s @ filter (\<lambda>r. r \<in> fst ` set ds) p
           \<and> (if gate then q @ new \<noteq> [] \<longrightarrow> p \<noteq> [] else p = [])"
proof -
  obtain new where n: "observed ds q = q @ new" "set new \<subseteq> fst ` set ds - set q"
    using observed_new by blast
  from assms obtain p s where ps: "observed ds q = p @ s" "q' = s @ filter (hosted ds) p"
    "if gate then observed ds q \<noteq> [] \<longrightarrow> p \<noteq> [] else p = [] \<and> evs = []"
    unfolding passed_def by blast
  have h: "filter (hosted ds) p = filter (\<lambda>r. r \<in> fst ` set ds) p"
    by (rule filter_cong) (simp_all add: hosted_iff)
  have g: "if gate then q @ new \<noteq> [] \<longrightarrow> p \<noteq> [] else p = []"
    using ps(3) unfolding n(1) by (simp split: if_splits)
  from ps(1,2) n(2) g show ?thesis unfolding n(1) h by blast
qed

text \<open>
  C7, as amended. \<open>cleanup\<close> leaves both queues as they are, so a dropped region stays
  queued. An iteration first appends the hosted regions that are not queued (\<open>new\<close>), then
  a pass visits a prefix \<open>p\<close> of the queue and leaves the unvisited rest \<open>s\<close> followed by the
  hosted regions of \<open>p\<close>: a region of \<open>p\<close> that is not hosted is popped and not appended
  again. Without a pass (the 500 ms have not elapsed) nothing is visited; with a pass on a
  non-empty queue at least the front is.
\<close>

theorem stale_entries_leave_when_reached:
  "m_preallocate_rr (cleanup D cfg us (st :: 'h datalayer)) = m_preallocate_rr st
   \<and> m_optimistic_rr (cleanup D cfg us st) = m_optimistic_rr st
   \<and> (\<exists>new p s. m_preallocate_rr st @ new = p @ s
         \<and> set new \<subseteq> fst ` set (m_disks st) - set (m_preallocate_rr st)
         \<and> m_preallocate_rr (flush_loop_body D clk st)
             = s @ filter (\<lambda>r. r \<in> fst ` set (m_disks st)) p
         \<and> (if time_elapsed (preallocate_check clk) (m_last_preallocation st)
             then m_preallocate_rr st @ new \<noteq> [] \<longrightarrow> p \<noteq> [] else p = []))
   \<and> (\<exists>new p s. m_optimistic_rr st @ new = p @ s
         \<and> set new \<subseteq> fst ` set (m_disks st) - set (m_optimistic_rr st)
         \<and> m_optimistic_rr (flush_loop_body D clk st)
             = s @ filter (\<lambda>r. r \<in> fst ` set (m_disks st)) p
         \<and> (if time_elapsed (optimism_check clk) (m_last_dose_of_optimism st)
             then m_optimistic_rr st @ new \<noteq> [] \<longrightarrow> p \<noteq> [] else p = []))"
proof -
  obtain evp evo :: "'h event list" where
    p: "passed (m_disks st) PREALLOCATE PreallocationFailed
          (time_elapsed (preallocate_check clk) (m_last_preallocation st))
          (observed (m_disks st) (m_preallocate_rr st))
          (m_preallocate_rr (flush_loop_body D clk st)) evp"
    and o: "passed (m_disks st) DO_OPTIMISTIC_IO OptimisticIOFailed
          (time_elapsed (optimism_check clk) (m_last_dose_of_optimism st))
          (observed (m_disks st) (m_optimistic_rr st))
          (m_optimistic_rr (flush_loop_body D clk st)) evo"
    using flush_loop_body_spec [of st clk D] by blast
  have c: "m_preallocate_rr (cleanup D cfg us st) = m_preallocate_rr st
         \<and> m_optimistic_rr (cleanup D cfg us st) = m_optimistic_rr st"
    unfolding cleanup_def Let_def by (rule fold_cleanup_disk_queues)
  from c passed_queue [OF p] passed_queue [OF o] show ?thesis by (intro conjI) blast+
qed

theorem stale_entries_leave_when_reached_witness:
  "m_preallocate_rr (cleanup quiet_disk shrunk_config 7 after_drop) = [region_of 1, region_of 2]
   \<and> time_elapsed (preallocate_check (tick 1200000000)) (m_last_preallocation after_drop)
   \<and> m_preallocate_rr (flush_loop_body quiet_disk (tick 1200000000) after_drop) = [region_of 2]"
  using stale_entries_leave_when_reached [of quiet_disk shrunk_config 7 after_drop "tick 1200000000"]
  by (simp add: after_drop_window) (simp add: after_drop_eq tick_def time_elapsed_def)

text \<open>
  C7 as stated fails: regions 1 and 2 are hosted and queued, region 1 is dropped by
  \<open>cleanup\<close> and is still queued afterwards, and the next iteration removes it from both
  queues.
\<close>

theorem stale_entry_pruned_counterexample:
  "region_of 1 \<in> set (m_preallocate_rr after_drop)
   \<and> region_of 1 \<in> set (m_optimistic_rr after_drop)
   \<and> region_of 1 \<notin> fst ` set (m_disks after_drop)
   \<and> region_of 1 \<notin> set (m_preallocate_rr (flush_loop_body quiet_disk (tick 1200000000) after_drop))
   \<and> region_of 1 \<notin> set (m_optimistic_rr (flush_loop_body quiet_disk (tick 1200000000) after_drop))"
  by (simp add: after_drop_window region_of_eq) (simp add: after_drop_eq region_of_eq)

subsection \<open>Fairness of preallocation\<close>

text \<open>
  C6, as amended. Run the iterations with the clock readings \<open>clks\<close> from a state that is
  not shut down; the map is the same throughout. If at least as many of them run the
  preallocation pass as the preallocation queue is long once the first iteration has
  appended the hosted regions it lacks, then the disk of every hosted region receives a
  \<open>preallocate\<close> call. The queue is as long as the map when it has no duplicates and no
  stale entries.
\<close>

theorem preallocation_reaches_every_region:
  assumes "\<not> m_shutdown st"
    and "length (observed (m_disks st) (m_preallocate_rr st))
           \<le> window_count (m_last_preallocation st) clks"
  shows "\<exists>evs. trace (flush_loop_while D clks st) = trace st @ evs
     \<and> m_disks (flush_loop_while D clks st) = m_disks st
     \<and> (\<forall>r d. map_of (m_disks st) r = Some d \<longrightarrow> d \<in> fst ` set (calls PREALLOCATE evs))
     \<and> (distinct (m_preallocate_rr st) \<and> set (m_preallocate_rr st) \<subseteq> fst ` set (m_disks st)
          \<and> distinct (map fst (m_disks st))
        \<longrightarrow> length (observed (m_disks st) (m_preallocate_rr st)) = length (m_disks st))"
proof -
  let ?ds = "m_disks st"
  let ?q0 = "observed ?ds (m_preallocate_rr st)"
  have "fair_inv ?ds ?q0 ?q0 {} 0"
    unfolding fair_inv_def
    by (rule disjI2, rule exI [of _ "[]"], rule exI [of _ ?q0]) (simp add: served_def)
  from flush_loop_fair [OF assms(1) this, of D clks] obtain evs where
    r: "trace (flush_loop_while D clks st) = trace st @ evs"
      "m_disks (flush_loop_while D clks st) = ?ds"
      "fair_inv ?ds ?q0 (observed ?ds (m_preallocate_rr (flush_loop_while D clks st)))
         ({} \<union> fst ` set (calls PREALLOCATE evs))
         (0 + window_count (m_last_preallocation st) clks)"
    by blast
  have "served ?ds ?q0 ({} \<union> fst ` set (calls PREALLOCATE evs))"
    using r(3) by (rule fair_inv_final) (simp add: assms(2))
  then have s: "served ?ds ?q0 (fst ` set (calls PREALLOCATE evs))" by simp
  have all: "\<forall>r d. map_of ?ds r = Some d \<longrightarrow> d \<in> fst ` set (calls PREALLOCATE evs)"
  proof (intro allI impI)
    fix r d assume m: "map_of ?ds r = Some d"
    then have "r \<in> fst ` set ?ds" by (metis map_of_eq_None_iff option.distinct(1))
    then have "r \<in> set ?q0" by (simp add: set_observed)
    with s m show "d \<in> fst ` set (calls PREALLOCATE evs)" unfolding served_def by blast
  qed
  from r(1,2) all show ?thesis by (blast intro: length_observed)
qed

theorem preallocation_reaches_every_region_witness:
  "\<not> m_shutdown (hosting three_disks)
   \<and> length (observed (m_disks (hosting three_disks)) (m_preallocate_rr (hosting three_disks)))
       \<le> window_count (m_last_preallocation (hosting three_disks))
            [tick 600000000, tick 1200000000, tick 1800000000]
   \<and> map_of (m_disks (hosting three_disks)) (region_of 3) = Some 2
   \<and> 2 \<in> fst ` set (calls PREALLOCATE
         (trace (flush_loop_while eager_disk [tick 600000000, tick 1200000000, tick 1800000000]
                   (hosting three_disks))))"
proof -
  have h1: "\<not> m_shutdown (hosting three_disks)" by (simp add: hosting_def)
  have h2: "length (observed (m_disks (hosting three_disks)) (m_preallocate_rr (hosting three_disks)))
       \<le> window_count (m_last_preallocation (hosting three_disks))
            [tick 600000000, tick 1200000000, tick 1800000000]"
    by (simp add: hosting_def three_disks_def observed_def tick_def time_elapsed_def region_of_eq)
  have h3: "map_of (m_disks (hosting three_disks)) (region_of 3) = Some 2"
    by (simp add: hosting_def three_disks_def region_of_eq)
  from preallocation_reaches_every_region [OF h1 h2, of eager_disk]
  obtain evs where
    "trace (flush_loop_while eager_disk [tick 600000000, tick 1200000000, tick 1800000000]
              (hosting three_disks)) = trace (hosting three_disks) @ evs"
    "\<forall>r d. map_of (m_disks (hosting three_disks)) r = Some d
        \<longrightarrow> d \<in> fst ` set (calls PREALLOCATE evs)"
    by blast
  with h3 have "2 \<in> fst ` set (calls PREALLOCATE
         (trace (flush_loop_while eager_disk [tick 600000000, tick 1200000000, tick 1800000000]
                   (hosting three_disks))))"
    by (simp add: hosting_def)
  with h1 h2 h3 show ?thesis by blast
qed

text \<open>
  C6 as stated fails when a stale entry is queued: one region is hosted, one preallocation
  pass runs, and its walk ends after discarding the stale entry in front, without a
  \<open>preallocate\<close> call on the hosted region.
\<close>

theorem preallocation_skips_region_counterexample:
  "\<not> m_shutdown after_drop
   \<and> m_disks after_drop = [(region_of 2, 1)]
   \<and> window_count (m_last_preallocation after_drop) [tick 1200000000] = 1
   \<and> m_disks (flush_loop_while quiet_disk [tick 1200000000] after_drop) = m_disks after_drop
   \<and> trace (flush_loop_while quiet_disk [tick 1200000000] after_drop)
       = trace after_drop @ [Call 1 (FLUSH 10000) DIDNOTHING, Sleep 0 100]
   \<and> calls PREALLOCATE [Call 1 (FLUSH 10000) DIDNOTHING, Sleep 0 100 :: nat event] = []"
proof -
  have s: "\<not> m_shutdown after_drop" by (simp add: after_drop_eq)
  have "flush_loop_while quiet_disk [tick 1200000000] after_drop
          = flush_loop_body quiet_disk (tick 1200000000) after_drop"
    using s by simp
  then show ?thesis
    by (simp add: after_drop_window) (simp add: after_drop_eq tick_def time_elapsed_def)
qed

end
